theory Spec2Isabelle
  imports Main "HOL-Library.Word"
begin

unbundle bit_operations_syntax

chapter \<open>The metadata-filtered power-of-two-choice hash table\<close>

text \<open>
  A shallow embedding of \<^verbatim>\<open>include/hashing_project/tables/p2_hashing_metadata.cuh\<close>:
  the data bucket \<^verbatim>\<open>p2_md_bucket\<close>, the tag bucket \<^verbatim>\<open>metadata_bucket\<close> and the
  table \<^verbatim>\<open>p2_metadata_table\<close>, as instantiated by \<^verbatim>\<open>md_p2_generic\<close> for 64-bit
  keys and values. One operation of one cooperative group (tile) is one function on the
  table; the lanes of the tile run in lockstep and are emulated in lane order.
\<close>

section \<open>Template parameters\<close>

type_synonym key = "64 word"
type_synonym val = "64 word"
type_synonym tag = "16 word"
type_synonym pair_type = "key \<times> val"

text \<open>
  The template parameters of \<^verbatim>\<open>p2_metadata_table\<close>
  (\<^verbatim>\<open>Key defaultKey, Key tombstoneKey, Val defaultVal, Val tombstoneVal,
  uint partition_size, uint bucket_size\<close>).
\<close>

record config =
  defaultKey :: key
  tombstoneKey :: key
  defaultVal :: val
  tombstoneVal :: val
  partition_size :: nat
  bucket_size :: nat

text \<open>\<^verbatim>\<open>static const Key holdingKey = tombstoneKey-1;\<close>\<close>

definition holdingKey :: "config \<Rightarrow> key" where
  "holdingKey cfg = tombstoneKey cfg - 1"

text \<open>\<^verbatim>\<open>generate_p2_md_tombstone\<close>, \<^verbatim>\<open>generate_p2_md_sentinel\<close> and the alias
  \<^verbatim>\<open>md_p2_generic<Key, Val, tile_size, bucket_size>\<close>.\<close>

definition generate_p2_md_tombstone :: "64 word \<Rightarrow> 64 word" where
  "generate_p2_md_tombstone offset = NOT 0 - offset"

definition generate_p2_md_sentinel :: "64 word" where
  "generate_p2_md_sentinel = 0"

definition md_p2_generic :: "nat \<Rightarrow> nat \<Rightarrow> config" where
  "md_p2_generic tile_size bsize =
     \<lparr>defaultKey = generate_p2_md_sentinel,
      tombstoneKey = generate_p2_md_tombstone 0,
      defaultVal = generate_p2_md_sentinel,
      tombstoneVal = generate_p2_md_tombstone 0,
      partition_size = tile_size,
      bucket_size = bsize\<rparr>"

text \<open>\<^verbatim>\<open>static const uint64_t n_traversals = ((bucket_size-1)/partition_size+1)*partition_size;\<close>\<close>

definition n_traversals :: "config \<Rightarrow> nat" where
  "n_traversals cfg = ((bucket_size cfg - 1) div partition_size cfg + 1) * partition_size cfg"

section \<open>Tags\<close>

definition get_empty_tag :: "config \<Rightarrow> tag" where
  "get_empty_tag cfg = ucast (defaultKey cfg)"

definition get_tombstone_tag :: "config \<Rightarrow> tag" where
  "get_tombstone_tag cfg = ucast (tombstoneKey cfg)"

text \<open>
  \<^verbatim>\<open>get_tag\<close>: the low 16 bits of the key, the key advanced by one while the tag is one of
  the two reserved tags. The loop is the recursion; it ends because of three consecutive
  keys at most two can carry a reserved tag.
\<close>

function get_tag :: "config \<Rightarrow> key \<Rightarrow> tag" where
  "get_tag cfg k =
     (let key_tag = (ucast k :: tag) in
      if key_tag = get_empty_tag cfg \<or> key_tag = get_tombstone_tag cfg
      then get_tag cfg (k + 1)
      else key_tag)"
  by pat_completeness auto
termination
proof (relation "measure (\<lambda>(cfg, k).
          if (ucast k :: tag) = get_empty_tag cfg \<or> (ucast k :: tag) = get_tombstone_tag cfg
          then (if (ucast (k + 1) :: tag) = get_empty_tag cfg
                   \<or> (ucast (k + 1) :: tag) = get_tombstone_tag cfg then 2 else 1)
          else (0::nat))")
  show "wf (measure (\<lambda>(cfg, k).
          if (ucast k :: tag) = get_empty_tag cfg \<or> (ucast k :: tag) = get_tombstone_tag cfg
          then (if (ucast (k + 1) :: tag) = get_empty_tag cfg
                   \<or> (ucast (k + 1) :: tag) = get_tombstone_tag cfg then 2 else 1)
          else (0::nat)))"
    by simp
next
  fix cfg :: config and k :: key and x :: tag
  assume x: "x = ucast k" and r: "x = get_empty_tag cfg \<or> x = get_tombstone_tag cfg"
  have step: "(ucast (w + 1) :: tag) = ucast w + 1" for w :: key
  proof -
    have "(ucast (w + 1) :: tag) = word_of_int (uint (w + 1))" by (rule ucast_eq)
    also have "\<dots> = word_of_int (take_bit LENGTH(64) (uint w + uint (1 :: key)))"
      by (simp only: uint_word_ariths take_bit_eq_mod)
    also have "\<dots> = (word_of_int (uint w + uint (1 :: key)) :: tag)"
      by (simp only: word_of_int_eq_iff take_bit_take_bit) simp
    also have "\<dots> = word_of_int (uint w) + word_of_int (uint (1 :: key))"
      by (rule wi_hom_add [symmetric])
    also have "\<dots> = ucast w + 1" by (simp only: ucast_eq [symmetric] ucast_1)
    finally show ?thesis .
  qed
  define a where "a = (ucast k :: tag)"
  define b where "b = (ucast (k + 1) :: tag)"
  define c where "c = (ucast (k + 1 + 1) :: tag)"
  have b: "b = a + 1" unfolding a_def b_def by (rule step)
  have c: "c = b + 1" unfolding b_def c_def by (rule step)
  have ab: "a \<noteq> b" unfolding b by simp
  have bc: "b \<noteq> c" unfolding c by simp
  have ac: "a \<noteq> c"
  proof
    assume "a = c"
    then have "a + 0 = a + 2" unfolding c b by (simp add: add.assoc)
    then have "(0 :: tag) = 2" by (simp only: add_left_cancel)
    then show False by simp
  qed
  have "a = get_empty_tag cfg \<or> a = get_tombstone_tag cfg"
    using x r unfolding a_def by simp
  with ab bc ac have
    "(if b = get_empty_tag cfg \<or> b = get_tombstone_tag cfg
      then (if c = get_empty_tag cfg \<or> c = get_tombstone_tag cfg then 2 else 1) else (0::nat))
     < (if a = get_empty_tag cfg \<or> a = get_tombstone_tag cfg
      then (if b = get_empty_tag cfg \<or> b = get_tombstone_tag cfg then 2 else 1) else (0::nat))"
    by auto
  then show "((cfg, k + 1), (cfg, k)) \<in> measure (\<lambda>(cfg, k).
          if (ucast k :: tag) = get_empty_tag cfg \<or> (ucast k :: tag) = get_tombstone_tag cfg
          then (if (ucast (k + 1) :: tag) = get_empty_tag cfg
                   \<or> (ucast (k + 1) :: tag) = get_tombstone_tag cfg then 2 else 1)
          else (0::nat))"
    unfolding a_def b_def c_def by (simp only: in_measure prod.case)
qed

declare get_tag.simps [simp del]

section \<open>Construction\<close>

text \<open>
  \<^verbatim>\<open>uint64_t ext_n_buckets = (cache_capacity-1)/bucket_size+1;\<close> in
  \<^verbatim>\<open>generate_on_device\<close>, in 64-bit unsigned arithmetic.
\<close>

definition ext_n_buckets :: "config \<Rightarrow> 64 word \<Rightarrow> 64 word" where
  "ext_n_buckets cfg cache_capacity = (cache_capacity - 1) div of_nat (bucket_size cfg) + 1"

section \<open>Primitives of the runtime\<close>

text \<open>
  The loads, stores and atomics of \<^verbatim>\<open>hashing_project/helpers/ht_load.cuh\<close> and of
  gallatin are not part of the sources at hand; one group runs at a time, so a load reads
  the list, a store updates it, and a compare-and-swap succeeds exactly when the cell
  holds the expected value.

  Modelled from the spec: \<^verbatim>\<open>typed_atomic_write(addr, expected, desired)\<close>, the helper
  behind every claim of a tag and every erase of a key: ``an atomic compare-and-swap of the
  tag from empty to the query key's tag''; it answers whether the swap took place.
\<close>

definition typed_atomic_write :: "'a list \<Rightarrow> nat \<Rightarrow> 'a \<Rightarrow> 'a \<Rightarrow> bool \<times> 'a list" where
  "typed_atomic_write cells i expected desired =
     (if cells ! i = expected then (True, cells[i := desired]) else (False, cells))"

text \<open>Modelled from the spec: \<^verbatim>\<open>ht_load_metadata<packed_tags>\<close>, to which
  \<^verbatim>\<open>load_multi_tags\<close> (``load 8 tags and pack them'') hands its address: ``a single wide
  (multi-tag-per-load) read'', the eight tags from the address on.\<close>

definition load_multi_tags :: "tag list \<Rightarrow> nat \<Rightarrow> tag list" where
  "load_multi_tags metadata start = map (\<lambda>j. metadata ! (start + j)) [0..<8]"

text \<open>\<^verbatim>\<open>#define SET_BIT_MASK(index) ((1ULL << index))\<close>, and the same stored into a
  \<^verbatim>\<open>uint32_t\<close> (\<^verbatim>\<open>LARGE_BUCKET_MODS\<close> is 0, the ballots are 32 bits wide).\<close>

definition SET_BIT_MASK :: "nat \<Rightarrow> 64 word" where
  "SET_BIT_MASK index = push_bit index 1"

definition set_index :: "nat \<Rightarrow> 32 word" where
  "set_index n = ucast (SET_BIT_MASK n)"

text \<open>\<^verbatim>\<open>__popc\<close>: the number of bits set in a 32-bit word.\<close>

definition popc :: "32 word \<Rightarrow> nat" where
  "popc w = length (filter (bit w) [0..<32])"

text \<open>
  \<^verbatim>\<open>my_tile.ballot(p)\<close> collects the lanes whose predicate holds, here as the list of
  these lanes in ascending order: \<^verbatim>\<open>__ffs(b)-1\<close> is then its head (and \<^verbatim>\<open>-1\<close> when the
  list is empty), and \<^verbatim>\<open>b ^= 1UL << leader\<close> drops the head.
\<close>

definition ballot :: "config \<Rightarrow> (nat \<Rightarrow> bool) \<Rightarrow> nat list" where
  "ballot cfg p = filter p [0..<partition_size cfg]"

text \<open>
  \<^verbatim>\<open>for (uint i = my_tile.thread_rank(); i < limit; i+=my_tile.size())\<close>: the lanes step
  together; in the round with offset \<open>i - thread_rank\<close> lane \<open>rank\<close> holds
  \<open>i = offset + rank\<close>. The offsets of the rounds that lane 0 runs:
\<close>

definition lane_rounds :: "config \<Rightarrow> nat \<Rightarrow> nat list" where
  "lane_rounds cfg limit =
     map (\<lambda>r. r * partition_size cfg)
       [0..<(limit + partition_size cfg - 1) div partition_size cfg]"

text \<open>The body of a round either returns from the function (\<open>Some\<close>) or falls through
  to the next round.\<close>

fun round_loop :: "nat list \<Rightarrow> (nat \<Rightarrow> 's \<Rightarrow> 'r option \<times> 's) \<Rightarrow> 's \<Rightarrow> 'r option \<times> 's" where
  "round_loop [] body s = (None, s)"
| "round_loop (offset # rest) body s =
     (case body offset s of
        (Some r, s') \<Rightarrow> (Some r, s')
      | (None, s') \<Rightarrow> round_loop rest body s')"

text \<open>
  \<^verbatim>\<open>while (ballot_result){ leader = __ffs(ballot_result)-1; ... if (my_tile.ballot(ballot))
  return ...; ballot_result ^= 1UL << leader; }\<close>: the leader makes its attempt, the
  group returns when the attempt succeeded and elects the next leader otherwise.
\<close>

fun leader_loop :: "nat list \<Rightarrow> (nat \<Rightarrow> 's \<Rightarrow> bool \<times> 's) \<Rightarrow> 's \<Rightarrow> nat option \<times> 's" where
  "leader_loop [] attempt s = (None, s)"
| "leader_loop (leader # ballot_result) attempt s =
     (case attempt leader s of
        (True, s') \<Rightarrow> (Some leader, s')
      | (False, s') \<Rightarrow> leader_loop ballot_result attempt s')"

section \<open>The data bucket \<^verbatim>\<open>p2_md_bucket\<close>\<close>

text \<open>\<^verbatim>\<open>p2_md_bucket::init\<close>: every slot holds the sentinel pair.\<close>

definition bucket_init :: "config \<Rightarrow> pair_type list" where
  "bucket_init cfg = replicate (bucket_size cfg) (defaultKey cfg, defaultVal cfg)"

text \<open>
  \<^verbatim>\<open>upsert_existing\<close>: among the slots of \<open>upsert_mapping\<close> the leader whose slot still
  holds \<open>ext_key\<close> stores the value. The result is \<^verbatim>\<open>__ffs(my_tile.ballot(ballot))-1\<close>,
  the lane of that leader, or \<^verbatim>\<open>-1\<close> (\<open>None\<close>).
\<close>

definition upsert_existing ::
  "config \<Rightarrow> pair_type list \<Rightarrow> key \<Rightarrow> val \<Rightarrow> 32 word \<Rightarrow> nat option \<times> pair_type list" where
  "upsert_existing cfg slots ext_key ext_val upsert_mapping =
     round_loop (lane_rounds cfg (n_traversals cfg))
       (\<lambda>offset slots.
          let ballot_result = ballot cfg (\<lambda>rank.
                offset + rank < bucket_size cfg \<and> bit upsert_mapping (offset + rank))
          in leader_loop ballot_result
               (\<lambda>leader slots.
                  let i = offset + leader;
                      won = (fst (slots ! i) = ext_key)
                  in (won, if won then slots[i := (fst (slots ! i), ext_val)] else slots))
               slots)
       slots"

text \<open>
  \<^verbatim>\<open>erase_reference\<close>: the lanes whose slot is in \<open>match_ballot\<close> and holds \<open>ext_key\<close>
  vote; the leader swaps the key for the tombstone key
  (\<^verbatim>\<open>typed_atomic_write(&slots[i].key, ext_key, tombstoneKey)\<close>, the value stays); the
  result is \<^verbatim>\<open>my_tile.shfl(i, leader)\<close>, the slot.
\<close>

definition erase_reference ::
  "config \<Rightarrow> pair_type list \<Rightarrow> key \<Rightarrow> 32 word \<Rightarrow> nat option \<times> pair_type list" where
  "erase_reference cfg slots ext_key match_ballot =
     round_loop (lane_rounds cfg (n_traversals cfg))
       (\<lambda>offset slots.
          let ballot_result = ballot cfg (\<lambda>rank.
                (offset + rank < bucket_size cfg \<and> bit match_ballot (offset + rank))
                \<and> fst (slots ! (offset + rank)) = ext_key)
          in case leader_loop ballot_result
                    (\<lambda>leader slots.
                       let i = offset + leader in
                       if fst (slots ! i) = ext_key
                       then (True, slots[i := (tombstoneKey cfg, snd (slots ! i))])
                       else (False, slots))
                    slots of
               (Some leader, slots') \<Rightarrow> (Some (offset + leader), slots')
             | (None, slots') \<Rightarrow> (None, slots'))
       slots"

section \<open>The tag bucket \<^verbatim>\<open>metadata_bucket\<close>\<close>

text \<open>\<^verbatim>\<open>metadata_bucket::init\<close>: every tag is the empty tag.\<close>

definition metadata_init :: "config \<Rightarrow> tag list" where
  "metadata_init cfg = replicate (bucket_size cfg) (get_empty_tag cfg)"

text \<open>\<^verbatim>\<open>set_tombstone(my_tile, written_addr)\<close>: the lane \<open>written_addr % partition_size\<close>
  stores the tombstone tag.\<close>

definition set_tombstone :: "config \<Rightarrow> tag list \<Rightarrow> nat \<Rightarrow> tag list" where
  "set_tombstone cfg metadata written_addr = metadata[written_addr := get_tombstone_tag cfg]"

text \<open>\<^verbatim>\<open>match_empty\<close>: the leaders try, slot by slot of \<open>empty_match\<close>, to swap the empty
  tag for the tag of the key; the slot of the first success is returned.\<close>

definition match_empty :: "config \<Rightarrow> tag list \<Rightarrow> key \<Rightarrow> 32 word \<Rightarrow> nat option \<times> tag list" where
  "match_empty cfg metadata upsert_key empty_match =
     round_loop (lane_rounds cfg (n_traversals cfg))
       (\<lambda>offset metadata.
          let ballot_result = ballot cfg (\<lambda>rank.
                offset + rank < bucket_size cfg \<and> bit empty_match (offset + rank))
          in case leader_loop ballot_result
                    (\<lambda>leader metadata.
                       typed_atomic_write metadata (offset + leader)
                         (get_empty_tag cfg) (get_tag cfg upsert_key))
                    metadata of
               (Some leader, metadata') \<Rightarrow> (Some (offset + leader), metadata')
             | (None, metadata') \<Rightarrow> (None, metadata'))
       metadata"

text \<open>\<^verbatim>\<open>match_tombstone\<close>: the same over the tombstoned slots.\<close>

definition match_tombstone :: "config \<Rightarrow> tag list \<Rightarrow> key \<Rightarrow> 32 word \<Rightarrow> nat option \<times> tag list" where
  "match_tombstone cfg metadata upsert_key empty_match =
     round_loop (lane_rounds cfg (n_traversals cfg))
       (\<lambda>offset metadata.
          let ballot_result = ballot cfg (\<lambda>rank.
                offset + rank < bucket_size cfg \<and> bit empty_match (offset + rank))
          in case leader_loop ballot_result
                    (\<lambda>leader metadata.
                       typed_atomic_write metadata (offset + leader)
                         (get_tombstone_tag cfg) (get_tag cfg upsert_key))
                    metadata of
               (Some leader, metadata') \<Rightarrow> (Some (offset + leader), metadata')
             | (None, metadata') \<Rightarrow> (None, metadata'))
       metadata"

text \<open>
  \<^verbatim>\<open>load_fill_ballots_huge\<close> (\<^verbatim>\<open>LARGE_MD_LOAD\<close> is 1). A lane loads eight tags at
  \<open>i*8\<close> for each of its \<open>i\<close> and sets the bits \<open>i*8+j\<close> of its three ballots
  (\<open>chunk_ballots\<close>, \<open>lane_ballots\<close> below); the ballots of the lanes are then added up
  by \<^verbatim>\<open>cg::reduce(my_tile, _, cg::plus<uint32_t>())\<close> and joined to the lane's own.
  The source writes the guard as \<^verbatim>\<open>i < (bucket_size-1/8)+1\<close>, where \<^verbatim>\<open>1/8\<close> is \<open>0\<close>.
\<close>

type_synonym ballots = "32 word \<times> 32 word \<times> 32 word"

definition valid_to_load :: "config \<Rightarrow> nat \<Rightarrow> bool" where
  "valid_to_load cfg i = (i < (bucket_size cfg - 1 div 8) + 1)"

definition huge_limit :: "config \<Rightarrow> nat" where
  "huge_limit cfg = (n_traversals cfg - 1) div 8 + 1"

definition chunk_ballots :: "config \<Rightarrow> tag list \<Rightarrow> tag \<Rightarrow> nat \<Rightarrow> ballots" where
  "chunk_ballots cfg metadata key_tag i =
     fold (\<lambda>j (local_empty, local_tombstone, local_match).
             let loaded_tag = load_multi_tags metadata (i * 8) ! j in
             (local_empty OR of_bool (loaded_tag = get_empty_tag cfg) * set_index (i * 8 + j),
              local_tombstone OR of_bool (loaded_tag = get_tombstone_tag cfg) * set_index (i * 8 + j),
              local_match OR of_bool (loaded_tag = key_tag) * set_index (i * 8 + j)))
          [0..<8] (0, 0, 0)"

definition lane_ballots :: "config \<Rightarrow> tag list \<Rightarrow> tag \<Rightarrow> nat \<Rightarrow> ballots" where
  "lane_ballots cfg metadata key_tag rank =
     fold (\<lambda>offset (empty_match, tombstone_match, key_match).
             let i = offset + rank in
             if i < huge_limit cfg \<and> valid_to_load cfg i
             then (case chunk_ballots cfg metadata key_tag i of
                     (local_empty, local_tombstone, local_match) \<Rightarrow>
                       (empty_match OR local_empty, tombstone_match OR local_tombstone,
                        key_match OR local_match))
             else (empty_match, tombstone_match, key_match))
          (lane_rounds cfg (huge_limit cfg)) (0, 0, 0)"

definition load_fill_ballots_huge :: "config \<Rightarrow> tag list \<Rightarrow> key \<Rightarrow> ballots" where
  "load_fill_ballots_huge cfg metadata upsert_key =
     (let key_tag = get_tag cfg upsert_key;
          lanes = map (lane_ballots cfg metadata key_tag) [0..<partition_size cfg];
          (empty_match, tombstone_match, key_match) = lane_ballots cfg metadata key_tag 0
      in (empty_match OR sum_list (map fst lanes),
          tombstone_match OR sum_list (map (fst \<circ> snd) lanes),
          key_match OR sum_list (map (snd \<circ> snd) lanes)))"

text \<open>
  \<^verbatim>\<open>query_md_and_bucket_large\<close>: every lane loads eight tags; for \<open>j = 0..7\<close> the lanes
  whose \<open>j\<close>-th tag is the tag of the key and whose slot \<open>i*8+j\<close> holds the key vote,
  and the value found by the lowest of them is returned. Nothing is stored.
\<close>

definition query_md_and_bucket_large ::
  "config \<Rightarrow> tag list \<Rightarrow> key \<Rightarrow> pair_type list \<Rightarrow> val option" where
  "query_md_and_bucket_large cfg metadata upsert_key primary_bucket =
     (let key_tag = get_tag cfg upsert_key in
      fst (round_loop (lane_rounds cfg (huge_limit cfg))
        (\<lambda>offset u.
           round_loop [0..<8]
             (\<lambda>j u.
                case ballot cfg (\<lambda>rank.
                       let i = offset + rank in
                       i < huge_limit cfg \<and> valid_to_load cfg i
                       \<and> load_multi_tags metadata (i * 8) ! j = key_tag
                       \<and> fst (primary_bucket ! (i * 8 + j)) = upsert_key) of
                  [] \<Rightarrow> (None, u)
                | leader # _ \<Rightarrow> (Some (snd (primary_bucket ! ((offset + leader) * 8 + j))), u))
             u)
        ()))"

section \<open>The table \<^verbatim>\<open>p2_metadata_table\<close>\<close>

record table =
  metadata :: "tag list list"
  buckets :: "pair_type list list"
  locks :: "64 word list"
  n_buckets :: "64 word"
  seed :: "64 word"

text \<open>
  \<^verbatim>\<open>hash\<close>, the device-side MurmurHash64A, over the 8-byte blocks of the key and the
  bytes that remain (\<open>len = 8 * length blocks + length tail\<close>); the table calls it as
  \<^verbatim>\<open>hash(&key, sizeof(Key), seed)\<close>, one block and no tail for a 64-bit key.
\<close>

definition hash :: "64 word list \<Rightarrow> 8 word list \<Rightarrow> 64 word \<Rightarrow> 64 word" where
  "hash blocks tail sd =
     (let m = 0xc6a4a7935bd1e995;
          r = 47;
          len = 8 * length blocks + length tail;
          h = sd XOR (of_nat len * m);
          h = fold (\<lambda>k h. let k = k * m; k = k XOR drop_bit r k; k = k * m; h = h XOR k
                           in h * m) blocks h;
          h = (if tail = [] then h
               else fold (\<lambda>(i, b) h. h XOR push_bit (8 * i) (ucast b)) (enumerate 0 tail) h * m);
          h = h XOR drop_bit r h;
          h = h * m;
          h = h XOR drop_bit r h
      in h)"

definition hash_key :: "table \<Rightarrow> key \<Rightarrow> 64 word" where
  "hash_key t k = hash [k] [] (seed t)"

text \<open>\<^verbatim>\<open>get_first_bucket\<close>: \<^verbatim>\<open>(hash & BITMASK(32)) % n_buckets\<close>;
  \<^verbatim>\<open>get_second_bucket\<close>: \<^verbatim>\<open>(hash >> 32) % n_buckets\<close>.\<close>

definition get_first_bucket :: "table \<Rightarrow> 64 word \<Rightarrow> nat" where
  "get_first_bucket t h = unat ((h AND mask 32) mod n_buckets t)"

definition get_second_bucket :: "table \<Rightarrow> 64 word \<Rightarrow> nat" where
  "get_second_bucket t h = unat (drop_bit 32 h mod n_buckets t)"

text \<open>
  \<^verbatim>\<open>generate_on_device\<close> and \<^verbatim>\<open>init_bucket_and_locks\<close>: the arrays are allocated for
  \<open>ext_n_buckets\<close> buckets and every bucket is initialised and unlocked.

  Modelled from the spec: \<^verbatim>\<open>gallatin::utils::get_device_version\<close>, which allocates the
  arrays (``allocated and zero/sentinel-initialized once at construction''); the lock
  words start as zero.
\<close>

definition generate_on_device :: "config \<Rightarrow> 64 word \<Rightarrow> 64 word \<Rightarrow> table" where
  "generate_on_device cfg cache_capacity ext_seed =
     (let n = ext_n_buckets cfg cache_capacity in
      \<lparr>metadata = replicate (unat n) (metadata_init cfg),
       buckets = replicate (unat n) (bucket_init cfg),
       locks = replicate (unat ((n - 1) div 64 + 1)) 0,
       n_buckets = n,
       seed = ext_seed\<rparr>)"

text \<open>
  \<^verbatim>\<open>stall_lock\<close> / \<^verbatim>\<open>stall_lock_one_thread\<close>: lane 0 repeats \<^verbatim>\<open>atomicOr\<close> on the lock
  word until the bit it sets was clear before. With one group at a time a bit that is
  set stays set: the loop then never ends, and the result is \<open>None\<close>.
\<close>

partial_function (option) stall_lock :: "table \<Rightarrow> nat \<Rightarrow> table option" where
  "stall_lock t bucket =
     (let high = bucket div 64;
          low = bucket mod 64;
          old = locks t ! high;
          t' = t\<lparr>locks := (locks t)[high := old OR SET_BIT_MASK low]\<rparr>
      in if old AND SET_BIT_MASK low \<noteq> 0 then stall_lock t' bucket else Some t')"

declare stall_lock.simps [code]

text \<open>\<^verbatim>\<open>unlock\<close> / \<^verbatim>\<open>unlock_bucket_one_thread\<close>: \<^verbatim>\<open>atomicAnd\<close> with the complement of
  the bit.\<close>

definition unlock :: "table \<Rightarrow> nat \<Rightarrow> table" where
  "unlock t bucket =
     (let high = bucket div 64;
          low = bucket mod 64
      in t\<lparr>locks := (locks t)[high := (locks t ! high) AND NOT (SET_BIT_MASK low)]\<rparr>)"

text \<open>Writing back the tag bucket and the data bucket at an address
  (\<^verbatim>\<open>get_metadata\<close>, \<^verbatim>\<open>get_bucket_ptr\<close>), and
  \<^verbatim>\<open>ht_store_packed_pair(&bucket_ptr->slots[pos], {key,val})\<close>.\<close>

definition put_metadata :: "table \<Rightarrow> nat \<Rightarrow> tag list \<Rightarrow> table" where
  "put_metadata t bucket_addr md = t\<lparr>metadata := (metadata t)[bucket_addr := md]\<rparr>"

definition put_bucket :: "table \<Rightarrow> nat \<Rightarrow> pair_type list \<Rightarrow> table" where
  "put_bucket t bucket_addr slots = t\<lparr>buckets := (buckets t)[bucket_addr := slots]\<rparr>"

definition ht_store_packed_pair :: "table \<Rightarrow> nat \<Rightarrow> nat \<Rightarrow> pair_type \<Rightarrow> table" where
  "ht_store_packed_pair t bucket_addr pos p =
     put_bucket t bucket_addr ((buckets t ! bucket_addr)[pos := p])"

subsection \<open>\<^verbatim>\<open>upsert_replace\<close>\<close>

text \<open>
  The size of a bucket as \<^verbatim>\<open>upsert_replace_internal\<close> computes it, in \<^verbatim>\<open>uint\<close>
  arithmetic: \<^verbatim>\<open>bucket_size - __popc(ballot)\<close>.
\<close>

definition bucket_fill :: "config \<Rightarrow> 32 word \<Rightarrow> 32 word" where
  "bucket_fill cfg free = of_nat (bucket_size cfg) - of_nat (popc free)"

text \<open>
  \<^verbatim>\<open>bucket_0_size < bucket_size*P2_MD_CUTOFF\<close> with \<^verbatim>\<open>#define P2_MD_CUTOFF .75\<close>: the
  comparison is made in double precision, where both sides are exact, so it is
  \<open>4 * size < 3 * bucket_size\<close>.
\<close>

definition below_cutoff :: "config \<Rightarrow> 32 word \<Rightarrow> bool" where
  "below_cutoff cfg bucket_0_size = (4 * unat bucket_0_size < 3 * bucket_size cfg)"

text \<open>
  \<^verbatim>\<open>if (__popc(bucket_match) != 0){ if (bucket_ptr->upsert_existing(...) != -1) return true; }\<close>
\<close>

definition update_in_place ::
  "config \<Rightarrow> table \<Rightarrow> nat \<Rightarrow> key \<Rightarrow> val \<Rightarrow> 32 word \<Rightarrow> bool \<times> table" where
  "update_in_place cfg t bucket k v bucket_match =
     (if popc bucket_match \<noteq> 0
      then (case upsert_existing cfg (buckets t ! bucket) k v bucket_match of
              (r, slots) \<Rightarrow> (r \<noteq> None, put_bucket t bucket slots))
      else (False, t))"

text \<open>
  The claim of a slot of one bucket, as the source spells it out three times (in the
  shortcut loop, and for either bucket in the general loop): \<^verbatim>\<open>match_tombstone\<close>, and
  on \<^verbatim>\<open>-1\<close> \<^verbatim>\<open>match_empty\<close>; the lane \<open>pos % partition_size\<close> of a claimed slot stores
  the pair, and the function returns true.
\<close>

definition claim_slot ::
  "config \<Rightarrow> table \<Rightarrow> nat \<Rightarrow> key \<Rightarrow> val \<Rightarrow> 32 word \<Rightarrow> 32 word \<Rightarrow> bool \<times> table" where
  "claim_slot cfg t bucket k v bucket_tombstone bucket_empty =
     (case match_tombstone cfg (metadata t ! bucket) k bucket_tombstone of
        (Some tombstone_pos, md) \<Rightarrow>
          (True, ht_store_packed_pair (put_metadata t bucket md) bucket tombstone_pos (k, v))
      | (None, md) \<Rightarrow>
          (case match_empty cfg md k bucket_empty of
             (Some empty_pos, md') \<Rightarrow>
               (True, ht_store_packed_pair (put_metadata t bucket md') bucket empty_pos (k, v))
           | (None, md') \<Rightarrow> (False, put_metadata t bucket md')))"

text \<open>One pass through the body of the shortcut loop, up to the reload.\<close>

definition shortcut_attempt ::
  "config \<Rightarrow> table \<Rightarrow> nat \<Rightarrow> key \<Rightarrow> val \<Rightarrow> ballots \<Rightarrow> bool \<times> table" where
  "shortcut_attempt cfg t bucket_0 k v b0 =
     (case b0 of (bucket_0_empty, bucket_0_tombstone, bucket_0_match) \<Rightarrow>
        (case update_in_place cfg t bucket_0 k v bucket_0_match of
           (True, t') \<Rightarrow> (True, t')
         | (False, t') \<Rightarrow> claim_slot cfg t' bucket_0 k v bucket_0_tombstone bucket_0_empty))"

text \<open>
  \<^verbatim>\<open>while (bucket_0_size < bucket_size*P2_MD_CUTOFF){ ... }\<close>, the size being
  \<^verbatim>\<open>bucket_size - __popc(bucket_0_empty)\<close>: a tombstoned slot counts as filled. The loop
  ends with \<open>Inl\<close> when the function returns from inside it and with \<open>Inr\<close>, the
  ballots last loaded, when its condition fails.
\<close>

partial_function (option) shortcut_loop ::
  "config \<Rightarrow> nat \<Rightarrow> key \<Rightarrow> val \<Rightarrow> table \<times> ballots \<Rightarrow> ((bool \<times> table) + (table \<times> ballots)) option"
where
  "shortcut_loop cfg bucket_0 k v st =
     (case st of (t, b0) \<Rightarrow>
        if below_cutoff cfg (bucket_fill cfg (fst b0))
        then (case shortcut_attempt cfg t bucket_0 k v b0 of
                (returned, t') \<Rightarrow>
                  if returned then Some (Inl (True, t'))
                  else shortcut_loop cfg bucket_0 k v
                         (t', load_fill_ballots_huge cfg (metadata t' ! bucket_0) k))
        else Some (Inr (t, b0)))"

declare shortcut_loop.simps [code]

text \<open>One pass through the body of the general loop, up to the reload: the matches of
  both buckets first, then the claim in the bucket that is less full.\<close>

definition alternate_attempt ::
  "config \<Rightarrow> table \<Rightarrow> nat \<Rightarrow> nat \<Rightarrow> key \<Rightarrow> val \<Rightarrow> ballots \<Rightarrow> ballots \<Rightarrow> bool \<times> table" where
  "alternate_attempt cfg t bucket_0 bucket_1 k v b0 b1 =
     (case b0 of (bucket_0_empty, bucket_0_tombstone, bucket_0_match) \<Rightarrow>
      case b1 of (bucket_1_empty, bucket_1_tombstone, bucket_1_match) \<Rightarrow>
        (case update_in_place cfg t bucket_0 k v bucket_0_match of
           (True, t') \<Rightarrow> (True, t')
         | (False, t') \<Rightarrow>
             (case update_in_place cfg t' bucket_1 k v bucket_1_match of
                (True, t'') \<Rightarrow> (True, t'')
              | (False, t'') \<Rightarrow>
                  if bucket_fill cfg (bucket_0_empty OR bucket_0_tombstone)
                     \<le> bucket_fill cfg (bucket_1_empty OR bucket_1_tombstone)
                  then claim_slot cfg t'' bucket_0 k v bucket_0_tombstone bucket_0_empty
                  else claim_slot cfg t'' bucket_1 k v bucket_1_tombstone bucket_1_empty)))"

text \<open>
  \<^verbatim>\<open>while (bucket_0_size != bucket_size || bucket_1_size != bucket_size){ ... }\<close>, the
  sizes being \<^verbatim>\<open>bucket_size - __popc(empty | tombstone)\<close>; after the loop the function
  returns false.
\<close>

partial_function (option) alternate_loop ::
  "config \<Rightarrow> nat \<Rightarrow> nat \<Rightarrow> key \<Rightarrow> val \<Rightarrow> table \<times> ballots \<times> ballots \<Rightarrow> (bool \<times> table) option"
where
  "alternate_loop cfg bucket_0 bucket_1 k v st =
     (case st of (t, b0, b1) \<Rightarrow>
        if bucket_fill cfg (fst b0 OR fst (snd b0)) \<noteq> of_nat (bucket_size cfg)
           \<or> bucket_fill cfg (fst b1 OR fst (snd b1)) \<noteq> of_nat (bucket_size cfg)
        then (case alternate_attempt cfg t bucket_0 bucket_1 k v b0 b1 of
                (returned, t') \<Rightarrow>
                  if returned then Some (True, t')
                  else alternate_loop cfg bucket_0 bucket_1 k v
                         (t', load_fill_ballots_huge cfg (metadata t' ! bucket_0) k,
                              load_fill_ballots_huge cfg (metadata t' ! bucket_1) k))
        else Some (False, t))"

declare alternate_loop.simps [code]

definition upsert_replace_internal ::
  "config \<Rightarrow> table \<Rightarrow> key \<Rightarrow> val \<Rightarrow> 64 word \<Rightarrow> nat \<Rightarrow> (bool \<times> table) option" where
  "upsert_replace_internal cfg t k v key_hash bucket_0 =
     (case shortcut_loop cfg bucket_0 k v
             (t, load_fill_ballots_huge cfg (metadata t ! bucket_0) k) of
        None \<Rightarrow> None
      | Some (Inl r) \<Rightarrow> Some r
      | Some (Inr (t', b0)) \<Rightarrow>
          (let bucket_1 = get_second_bucket t' key_hash in
           alternate_loop cfg bucket_0 bucket_1 k v
             (t', b0, load_fill_ballots_huge cfg (metadata t' ! bucket_1) k)))"

definition upsert_replace :: "config \<Rightarrow> table \<Rightarrow> key \<Rightarrow> val \<Rightarrow> (bool \<times> table) option" where
  "upsert_replace cfg t k v =
     (let key_hash = hash_key t k;
          bucket_0 = get_first_bucket t key_hash
      in case stall_lock t bucket_0 of
           None \<Rightarrow> None
         | Some t1 \<Rightarrow>
             (case upsert_replace_internal cfg t1 k v key_hash bucket_0 of
                None \<Rightarrow> None
              | Some (return_val, t2) \<Rightarrow> Some (return_val, unlock t2 bucket_0)))"

subsection \<open>\<^verbatim>\<open>find_with_reference\<close>\<close>

text \<open>
  The query probes the primary and then the secondary bucket. The source takes no lock
  and stores nothing; the table is handed back next to the result so that this can be
  stated. \<open>None\<close> is the result \<^verbatim>\<open>false\<close>, \<open>Some val\<close> is \<^verbatim>\<open>true\<close> with \<^verbatim>\<open>val\<close> set.
\<close>

definition find_with_reference :: "config \<Rightarrow> table \<Rightarrow> key \<Rightarrow> val option \<times> table" where
  "find_with_reference cfg t k =
     (let key_hash = hash_key t k;
          bucket_0 = get_first_bucket t key_hash
      in case query_md_and_bucket_large cfg (metadata t ! bucket_0) k (buckets t ! bucket_0) of
           Some val \<Rightarrow> (Some val, t)
         | None \<Rightarrow>
             (let bucket_1 = get_second_bucket t key_hash
              in (query_md_and_bucket_large cfg (metadata t ! bucket_1) k (buckets t ! bucket_1),
                  t)))"

definition find_with_reference_no_lock :: "config \<Rightarrow> table \<Rightarrow> key \<Rightarrow> val option \<times> table" where
  "find_with_reference_no_lock cfg t k =
     (let key_hash = hash_key t k;
          bucket_0 = get_first_bucket t key_hash
      in case query_md_and_bucket_large cfg (metadata t ! bucket_0) k (buckets t ! bucket_0) of
           Some val \<Rightarrow> (Some val, t)
         | None \<Rightarrow>
             (let bucket_1 = get_second_bucket t key_hash
              in (query_md_and_bucket_large cfg (metadata t ! bucket_1) k (buckets t ! bucket_1),
                  t)))"

subsection \<open>\<^verbatim>\<open>remove\<close>\<close>

text \<open>\<^verbatim>\<open>erase_reference\<close> on one bucket with the freshly loaded match ballot, and on
  success \<^verbatim>\<open>set_tombstone\<close> on the tag of the erased slot.\<close>

definition erase_from :: "config \<Rightarrow> table \<Rightarrow> nat \<Rightarrow> key \<Rightarrow> bool \<times> table" where
  "erase_from cfg t bucket k =
     (case load_fill_ballots_huge cfg (metadata t ! bucket) k of
        (bucket_0_empty, bucket_0_tombstone, bucket_0_match) \<Rightarrow>
          (case erase_reference cfg (buckets t ! bucket) k bucket_0_match of
             (Some erase_index, slots) \<Rightarrow>
               (True, put_metadata (put_bucket t bucket slots) bucket
                        (set_tombstone cfg (metadata t ! bucket) erase_index))
           | (None, slots) \<Rightarrow> (False, put_bucket t bucket slots)))"

definition remove_key :: "config \<Rightarrow> table \<Rightarrow> key \<Rightarrow> (bool \<times> table) option" where
  "remove_key cfg t k =
     (let key_hash = hash_key t k;
          bucket_0 = get_first_bucket t key_hash
      in case stall_lock t bucket_0 of
           None \<Rightarrow> None
         | Some t1 \<Rightarrow>
             (case erase_from cfg t1 bucket_0 k of
                (True, t2) \<Rightarrow> Some (True, unlock t2 bucket_0)
              | (False, t2) \<Rightarrow>
                  (let bucket_1 = get_second_bucket t2 key_hash
                   in case erase_from cfg t2 bucket_1 k of
                        (True, t3) \<Rightarrow> Some (True, unlock t3 bucket_0)
                      | (False, t3) \<Rightarrow> Some (False, unlock t3 bucket_0))))"

section \<open>Tables that the operations produce\<close>

text \<open>The tables reached from a freshly generated one by upserts and removes (a query
  leaves the table as it is).\<close>

inductive reachable :: "config \<Rightarrow> table \<Rightarrow> bool" for cfg :: config where
  generated: "reachable cfg (generate_on_device cfg cache_capacity ext_seed)"
| upserted: "reachable cfg t \<Longrightarrow> upsert_replace cfg t k v = Some (r, t') \<Longrightarrow> reachable cfg t'"
| removed: "reachable cfg t \<Longrightarrow> remove_key cfg t k = Some (r, t') \<Longrightarrow> reachable cfg t'"

section \<open>Notions the properties are stated with\<close>

text \<open>
  The configurations covered: the lanes of a tile take part in every collective together
  (the eight-tag chunks of a bucket divide evenly among the lanes), the wide loads stay
  inside the bucket and the 32-bit ballots hold one bit per slot, and the two reserved
  tags differ. \<^verbatim>\<open>md_p2_generic<uint64_t, uint64_t, 4, 32>\<close> is one of them.
\<close>

definition wf_config :: "config \<Rightarrow> bool" where
  "wf_config cfg \<longleftrightarrow>
     0 < partition_size cfg \<and> 0 < bucket_size cfg \<and> bucket_size cfg \<le> 32
     \<and> 8 dvd bucket_size cfg \<and> partition_size cfg dvd bucket_size cfg div 8
     \<and> get_empty_tag cfg \<noteq> get_tombstone_tag cfg"

text \<open>A tag that is neither empty nor tombstone; the number of such tags in a bucket
  (the occupancy that \<^verbatim>\<open>get_bucket_fill\<close> reports); and the number of tags that are not
  empty, tombstones included.\<close>

definition live_tag :: "config \<Rightarrow> tag \<Rightarrow> bool" where
  "live_tag cfg x \<longleftrightarrow> x \<noteq> get_empty_tag cfg \<and> x \<noteq> get_tombstone_tag cfg"

definition live_tags :: "config \<Rightarrow> tag list \<Rightarrow> nat" where
  "live_tags cfg md = length (filter (live_tag cfg) md)"

definition occupied_tags :: "config \<Rightarrow> tag list \<Rightarrow> nat" where
  "occupied_tags cfg md = length (filter (\<lambda>x. x \<noteq> get_empty_tag cfg) md)"

text \<open>The two candidate buckets of a key.\<close>

definition first_bucket :: "table \<Rightarrow> key \<Rightarrow> nat" where
  "first_bucket t k = get_first_bucket t (hash_key t k)"

definition second_bucket :: "table \<Rightarrow> key \<Rightarrow> nat" where
  "second_bucket t k = get_second_bucket t (hash_key t k)"

text \<open>Slot \<open>i\<close> of bucket \<open>b\<close> holds key \<open>k\<close> for the operations: its tag is the tag of
  \<open>k\<close> and its key is \<open>k\<close>.\<close>

definition holds :: "config \<Rightarrow> table \<Rightarrow> nat \<Rightarrow> nat \<Rightarrow> key \<Rightarrow> bool" where
  "holds cfg t b i k \<longleftrightarrow> metadata t ! b ! i = get_tag cfg k \<and> fst (buckets t ! b ! i) = k"

text \<open>The table with the tag and the pair of one slot replaced.\<close>

definition write_slot :: "table \<Rightarrow> nat \<Rightarrow> nat \<Rightarrow> tag \<Rightarrow> pair_type \<Rightarrow> table" where
  "write_slot t b i x p =
     t\<lparr>metadata := (metadata t)[b := (metadata t ! b)[i := x]],
       buckets := (buckets t)[b := (buckets t ! b)[i := p]]\<rparr>"

text \<open>The arrays have \<open>n_buckets\<close> buckets of \<open>bucket_size\<close> slots.\<close>

definition shape :: "config \<Rightarrow> table \<Rightarrow> bool" where
  "shape cfg t \<longleftrightarrow>
     n_buckets t \<noteq> 0
     \<and> length (metadata t) = unat (n_buckets t)
     \<and> length (buckets t) = unat (n_buckets t)
     \<and> list_all (\<lambda>md. length md = bucket_size cfg) (metadata t)
     \<and> list_all (\<lambda>slots. length slots = bucket_size cfg) (buckets t)"

text \<open>Every bucket has its lock word, and no lock is held.\<close>

definition locks_free :: "table \<Rightarrow> bool" where
  "locks_free t \<longleftrightarrow>
     list_all (\<lambda>b. b div 64 < length (locks t)) [0..<unat (n_buckets t)]
     \<and> list_all (\<lambda>w. w = 0) (locks t)"

text \<open>
  The key is held by neither candidate bucket; a bucket has neither an empty nor a
  tombstoned tag; and the condition under which \<^verbatim>\<open>upsert_replace_internal\<close> enters its
  shortcut loop, counted on the tags.
\<close>

definition absent :: "config \<Rightarrow> table \<Rightarrow> key \<Rightarrow> bool" where
  "absent cfg t k \<longleftrightarrow>
     list_all (\<lambda>i. \<not> holds cfg t (first_bucket t k) i k) [0..<bucket_size cfg]
     \<and> list_all (\<lambda>i. \<not> holds cfg t (second_bucket t k) i k) [0..<bucket_size cfg]"

definition bucket_full :: "config \<Rightarrow> table \<Rightarrow> nat \<Rightarrow> bool" where
  "bucket_full cfg t b \<longleftrightarrow> list_all (live_tag cfg) (metadata t ! b)"

definition shortcut_open :: "config \<Rightarrow> table \<Rightarrow> key \<Rightarrow> bool" where
  "shortcut_open cfg t k \<longleftrightarrow>
     4 * occupied_tags cfg (metadata t ! first_bucket t k) < 3 * bucket_size cfg"

text \<open>
  What the operations keep true of the table: a key is held by at most one slot of its
  two candidate buckets; a key held by its secondary bucket has a primary bucket whose
  non-empty tags have reached the cutoff; and the tag of a slot is the tag of its key
  unless the key is one of the two sentinels.
\<close>

definition table_inv :: "config \<Rightarrow> table \<Rightarrow> bool" where
  "table_inv cfg t \<longleftrightarrow>
     shape cfg t \<and> locks_free t
     \<and> (\<forall>k. \<forall>b \<in> {first_bucket t k, second_bucket t k}.
          \<forall>b' \<in> {first_bucket t k, second_bucket t k}.
          \<forall>i < bucket_size cfg. \<forall>i' < bucket_size cfg.
            holds cfg t b i k \<and> holds cfg t b' i' k \<longrightarrow> b = b' \<and> i = i')
     \<and> (\<forall>k. \<forall>i < bucket_size cfg.
            holds cfg t (second_bucket t k) i k \<and> second_bucket t k \<noteq> first_bucket t k
            \<longrightarrow> \<not> shortcut_open cfg t k)
     \<and> (\<forall>b < unat (n_buckets t). \<forall>i < bucket_size cfg.
            metadata t ! b ! i = get_tag cfg (fst (buckets t ! b ! i))
            \<or> fst (buckets t ! b ! i) = defaultKey cfg
            \<or> fst (buckets t ! b ! i) = tombstoneKey cfg)"

text \<open>
  The scan that the leader elections of \<^verbatim>\<open>upsert_existing\<close>, \<^verbatim>\<open>erase_reference\<close>,
  \<^verbatim>\<open>match_empty\<close> and \<^verbatim>\<open>match_tombstone\<close> share: in one round the lanes whose slot
  \<open>offset + rank\<close> satisfies \<open>Q\<close> vote, and the leaders try \<open>P\<close> in turn, the first
  success applying \<open>U\<close>.
\<close>

definition scan_body ::
  "config \<Rightarrow> (nat \<Rightarrow> 's \<Rightarrow> bool) \<Rightarrow> (nat \<Rightarrow> 's \<Rightarrow> bool) \<Rightarrow> (nat \<Rightarrow> 's \<Rightarrow> 's) \<Rightarrow> nat \<Rightarrow> 's \<Rightarrow> nat option \<times> 's" where
  "scan_body cfg Q P U offset s =
     leader_loop (ballot cfg (\<lambda>rank. Q (offset + rank) s))
       (\<lambda>leader s. if P (offset + leader) s then (True, U (offset + leader) s) else (False, s)) s"

text \<open>
  The slots of the two candidate buckets of a key, a bucket that is both candidates taken
  once; a key that is none of the three reserved keys; and the candidate slots whose key
  is live and is the given key.
\<close>

definition candidate_slots :: "config \<Rightarrow> table \<Rightarrow> key \<Rightarrow> (nat \<times> nat) list" where
  "candidate_slots cfg t k =
     List.product (remdups [first_bucket t k, second_bucket t k]) [0..<bucket_size cfg]"

definition live_key :: "config \<Rightarrow> key \<Rightarrow> bool" where
  "live_key cfg k \<longleftrightarrow> k \<noteq> defaultKey cfg \<and> k \<noteq> tombstoneKey cfg \<and> k \<noteq> holdingKey cfg"

definition live_slots_holding :: "config \<Rightarrow> table \<Rightarrow> key \<Rightarrow> (nat \<times> nat) list" where
  "live_slots_holding cfg t k =
     filter (\<lambda>(b, i). live_key cfg (fst (buckets t ! b ! i)) \<and> fst (buckets t ! b ! i) = k)
       (candidate_slots cfg t k)"

text \<open>
  The slot that \<^verbatim>\<open>match_tombstone\<close> and then \<^verbatim>\<open>match_empty\<close> take in a bucket: the first
  tombstoned slot, and when there is none the first empty slot. The bucket in which
  \<^verbatim>\<open>upsert_replace_internal\<close> claims a slot for a key that the table does not hold:
  \<^verbatim>\<open>bucket_0\<close> in the shortcut loop, and in the general loop \<^verbatim>\<open>bucket_0\<close> when
  \<^verbatim>\<open>bucket_0_size <= bucket_1_size\<close> and \<^verbatim>\<open>bucket_1\<close> otherwise.
\<close>

definition claimed_slot :: "config \<Rightarrow> tag list \<Rightarrow> nat option" where
  "claimed_slot cfg md =
     (case find (\<lambda>i. md ! i = get_tombstone_tag cfg) [0..<bucket_size cfg] of
        Some i \<Rightarrow> Some i
      | None \<Rightarrow> find (\<lambda>i. md ! i = get_empty_tag cfg) [0..<bucket_size cfg])"

definition selected_bucket :: "config \<Rightarrow> table \<Rightarrow> key \<Rightarrow> nat" where
  "selected_bucket cfg t k =
     (if shortcut_open cfg t k then first_bucket t k
      else if live_tags cfg (metadata t ! first_bucket t k)
              \<le> live_tags cfg (metadata t ! second_bucket t k)
      then first_bucket t k
      else second_bucket t k)"

section \<open>The query with its loads and probe counts\<close>

text \<open>
  \<^verbatim>\<open>find_with_reference\<close> once more, every access to memory now a step on the state of
  the device: the table and, next to it, the process-wide probe counter. A step hands on
  the state it leaves behind.

  Modelled from the spec: \<^verbatim>\<open>ADD_PROBE_TILE\<close> and \<^verbatim>\<open>ADD_PROBE\<close>, macros that the sources at
  hand use and do not define: ``every atomic retry/probe may report a count to a
  process-wide counter; this is a no-op stub if instrumentation is disabled''. What each
  of the two does to the counter is a parameter; \<open>no_instrumentation\<close> is the stub.
\<close>

record instrumentation =
  ADD_PROBE_TILE :: "nat \<Rightarrow> nat"
  ADD_PROBE :: "nat \<Rightarrow> nat"

definition no_instrumentation :: instrumentation where
  "no_instrumentation = \<lparr>ADD_PROBE_TILE = (\<lambda>count. count), ADD_PROBE = (\<lambda>count. count)\<rparr>"

definition silent :: "instrumentation \<Rightarrow> bool" where
  "silent ins \<longleftrightarrow> ADD_PROBE_TILE ins = (\<lambda>count. count) \<and> ADD_PROBE ins = (\<lambda>count. count)"

type_synonym device = "table \<times> nat"

definition report :: "(nat \<Rightarrow> nat) \<Rightarrow> device \<Rightarrow> device" where
  "report hook d = (fst d, hook (snd d))"

text \<open>
  \<^verbatim>\<open>load_multi_tags(&metadata[i*8])\<close> of a bucket of the table, and, modelled from the
  spec, \<^verbatim>\<open>ht_load_packed_pair(&primary_bucket->slots[pos])\<close>, the load of the pair of a
  slot (``the full key is compared'' after the tag matched).
\<close>

definition load_multi_tags_dev :: "device \<Rightarrow> nat \<Rightarrow> nat \<Rightarrow> tag list \<times> device" where
  "load_multi_tags_dev d bucket start = (load_multi_tags (metadata (fst d) ! bucket) start, d)"

definition ht_load_packed_pair :: "device \<Rightarrow> nat \<Rightarrow> nat \<Rightarrow> pair_type \<times> device" where
  "ht_load_packed_pair d bucket pos = (buckets (fst d) ! bucket ! pos, d)"

text \<open>The lanes of the tile make the same step one after the other, in lane order.\<close>

fun lanes_do :: "(nat \<Rightarrow> 's \<Rightarrow> 'a \<times> 's) \<Rightarrow> nat list \<Rightarrow> 's \<Rightarrow> 'a list \<times> 's" where
  "lanes_do step [] s = ([], s)"
| "lanes_do step (rank # ranks) s =
     (case step rank s of
        (x, s') \<Rightarrow> (case lanes_do step ranks s' of (xs, s'') \<Rightarrow> (x # xs, s'')))"

text \<open>
  \<^verbatim>\<open>query_md_and_bucket_large\<close>, step by step. \<^verbatim>\<open>ADD_PROBE_TILE\<close> comes first. In a round
  a lane that is \<^verbatim>\<open>valid_to_load\<close> loads its eight tags (\<open>lane_load\<close>); then, for
  \<open>j = 0..7\<close>, a lane whose \<open>j\<close>-th tag is the tag of the key reports a probe, loads the
  pair of slot \<open>i*8+j\<close> and has found the key when the key of the pair is the key asked for
  (\<open>lane_found\<close>, the lane's \<^verbatim>\<open>val\<close> then being the value of the pair); with
  \<^verbatim>\<open>leader = __ffs(my_tile.ballot(found))-1\<close> the group returns the leader's
  \<^verbatim>\<open>val\<close> (\<^verbatim>\<open>my_tile.shfl(val, leader)\<close>).
\<close>

definition lane_load :: "config \<Rightarrow> nat \<Rightarrow> nat \<Rightarrow> nat \<Rightarrow> device \<Rightarrow> tag list \<times> device" where
  "lane_load cfg bucket offset rank d =
     (let i = offset + rank in
      if i < huge_limit cfg \<and> valid_to_load cfg i
      then load_multi_tags_dev d bucket (i * 8)
      else ([], d))"

definition lane_found ::
  "instrumentation \<Rightarrow> config \<Rightarrow> nat \<Rightarrow> key \<Rightarrow> tag list list \<Rightarrow> nat \<Rightarrow> nat \<Rightarrow> nat \<Rightarrow> device
   \<Rightarrow> val option \<times> device" where
  "lane_found ins cfg bucket upsert_key loaded offset j rank d =
     (let i = offset + rank in
      if i < huge_limit cfg \<and> valid_to_load cfg i \<and> loaded ! rank ! j = get_tag cfg upsert_key
      then (case ht_load_packed_pair (report (ADD_PROBE ins) d) bucket (i * 8 + j) of
              (loaded_pair, d') \<Rightarrow>
                (if fst loaded_pair = upsert_key then Some (snd loaded_pair) else None, d'))
      else (None, d))"

definition query_md_and_bucket_large_dev ::
  "instrumentation \<Rightarrow> config \<Rightarrow> nat \<Rightarrow> key \<Rightarrow> device \<Rightarrow> val option \<times> device" where
  "query_md_and_bucket_large_dev ins cfg bucket upsert_key d =
     round_loop (lane_rounds cfg (huge_limit cfg))
       (\<lambda>offset d.
          case lanes_do (lane_load cfg bucket offset) [0..<partition_size cfg] d of
            (loaded, d1) \<Rightarrow>
              round_loop [0..<8]
                (\<lambda>j d.
                   case lanes_do (lane_found ins cfg bucket upsert_key loaded offset j)
                          [0..<partition_size cfg] d of
                     (vals, d') \<Rightarrow>
                       (case ballot cfg (\<lambda>rank. vals ! rank \<noteq> None) of
                          [] \<Rightarrow> (None, d')
                        | leader # _ \<Rightarrow> (vals ! leader, d')))
                d1)
       (report (ADD_PROBE_TILE ins) d)"

text \<open>\<^verbatim>\<open>find_with_reference\<close> and \<^verbatim>\<open>find_with_reference_no_lock\<close>: the primary bucket,
  then the secondary bucket. Neither calls \<^verbatim>\<open>stall_lock\<close> or \<^verbatim>\<open>unlock\<close>.\<close>

definition find_with_reference_dev ::
  "instrumentation \<Rightarrow> config \<Rightarrow> device \<Rightarrow> key \<Rightarrow> val option \<times> device" where
  "find_with_reference_dev ins cfg d k =
     (let key_hash = hash_key (fst d) k;
          bucket_0 = get_first_bucket (fst d) key_hash
      in case query_md_and_bucket_large_dev ins cfg bucket_0 k d of
           (Some val, d1) \<Rightarrow> (Some val, d1)
         | (None, d1) \<Rightarrow>
             (let bucket_1 = get_second_bucket (fst d1) key_hash
              in query_md_and_bucket_large_dev ins cfg bucket_1 k d1))"

definition find_with_reference_no_lock_dev ::
  "instrumentation \<Rightarrow> config \<Rightarrow> device \<Rightarrow> key \<Rightarrow> val option \<times> device" where
  "find_with_reference_no_lock_dev ins cfg d k =
     (let key_hash = hash_key (fst d) k;
          bucket_0 = get_first_bucket (fst d) key_hash
      in case query_md_and_bucket_large_dev ins cfg bucket_0 k d of
           (Some val, d1) \<Rightarrow> (Some val, d1)
         | (None, d1) \<Rightarrow>
             (let bucket_1 = get_second_bucket (fst d1) key_hash
              in query_md_and_bucket_large_dev ins cfg bucket_1 k d1))"

section \<open>Example runs\<close>

text \<open>A sequence of upserts and removes run one after the other, the results dropped.\<close>

datatype operation = Upsert key val | Remove key

fun run :: "config \<Rightarrow> table \<Rightarrow> operation list \<Rightarrow> table option" where
  "run cfg t [] = Some t"
| "run cfg t (Upsert k v # ops) =
     (case upsert_replace cfg t k v of None \<Rightarrow> None | Some (r, t') \<Rightarrow> run cfg t' ops)"
| "run cfg t (Remove k # ops) =
     (case remove_key cfg t k of None \<Rightarrow> None | Some (r, t') \<Rightarrow> run cfg t' ops)"

text \<open>
  \<^verbatim>\<open>md_p2_generic<uint64_t, uint64_t, 1, 8>\<close>, and tables of it. With capacity 8 and seed
  0 (one bucket): the table after \<^verbatim>\<open>upsert(1, 10)\<close>; that table after \<^verbatim>\<open>remove(1)\<close>; and
  the table after the upserts of the keys 1 to 8, its bucket full. With capacity 16 and
  seed 0 (two buckets; the keys used have bucket 0 as their primary bucket): the table
  after the upserts of the keys 1 to 6 and the remove of key 2; the table after the
  upserts of the keys 2, 3, 5, 9 and 14; and that table after \<^verbatim>\<open>upsert(1, 10)\<close> and
  \<^verbatim>\<open>remove(1)\<close>.
\<close>

definition example_config :: config where
  "example_config = md_p2_generic 1 8"

definition one_table :: table where
  "one_table =
     \<lparr>metadata = [[1, 0, 0, 0, 0, 0, 0, 0]],
      buckets = [[(1, 10), (0, 0), (0, 0), (0, 0), (0, 0), (0, 0), (0, 0), (0, 0)]],
      locks = [0], n_buckets = 1, seed = 0\<rparr>"

definition full_table :: table where
  "full_table =
     \<lparr>metadata = [[1, 2, 3, 4, 5, 6, 7, 8]],
      buckets = [[(1, 10), (2, 20), (3, 30), (4, 40), (5, 50), (6, 60), (7, 70), (8, 80)]],
      locks = [0], n_buckets = 1, seed = 0\<rparr>"

definition tombstoned_table :: table where
  "tombstoned_table =
     \<lparr>metadata = [[1, 65535, 3, 4, 5, 6, 0, 0], [0, 0, 0, 0, 0, 0, 0, 0]],
      buckets = [[(1, 10), (18446744073709551615, 20), (3, 30), (4, 40), (5, 50), (6, 60),
                  (0, 0), (0, 0)],
                 [(0, 0), (0, 0), (0, 0), (0, 0), (0, 0), (0, 0), (0, 0), (0, 0)]],
      locks = [0], n_buckets = 2, seed = 0\<rparr>"

definition removed_table :: table where
  "removed_table =
     \<lparr>metadata = [[65535, 0, 0, 0, 0, 0, 0, 0]],
      buckets = [[(18446744073709551615, 10), (0, 0), (0, 0), (0, 0), (0, 0), (0, 0), (0, 0),
                  (0, 0)]],
      locks = [0], n_buckets = 1, seed = 0\<rparr>"

definition five_table :: table where
  "five_table =
     \<lparr>metadata = [[2, 3, 5, 9, 14, 0, 0, 0], [0, 0, 0, 0, 0, 0, 0, 0]],
      buckets = [[(2, 20), (3, 30), (5, 50), (9, 90), (14, 140), (0, 0), (0, 0), (0, 0)],
                 [(0, 0), (0, 0), (0, 0), (0, 0), (0, 0), (0, 0), (0, 0), (0, 0)]],
      locks = [0], n_buckets = 2, seed = 0\<rparr>"

definition five_removed_table :: table where
  "five_removed_table =
     \<lparr>metadata = [[2, 3, 5, 9, 14, 65535, 0, 0], [0, 0, 0, 0, 0, 0, 0, 0]],
      buckets = [[(2, 20), (3, 30), (5, 50), (9, 90), (14, 140), (18446744073709551615, 10),
                  (0, 0), (0, 0)],
                 [(0, 0), (0, 0), (0, 0), (0, 0), (0, 0), (0, 0), (0, 0), (0, 0)]],
      locks = [0], n_buckets = 2, seed = 0\<rparr>"

chapter \<open>Properties\<close>

section \<open>Tags\<close>

lemma get_tag_not_reserved:
  "get_tag cfg k \<noteq> get_empty_tag cfg \<and> get_tag cfg k \<noteq> get_tombstone_tag cfg"
proof (induction cfg k rule: get_tag.induct)
  case (1 cfg k)
  show ?case
  proof (cases "(ucast k :: tag) = get_empty_tag cfg \<or> (ucast k :: tag) = get_tombstone_tag cfg")
    case True
    then have "get_tag cfg k = get_tag cfg (k + 1)"
      by (subst get_tag.simps) (simp add: Let_def)
    with 1 True show ?thesis by simp
  next
    case False
    then have "get_tag cfg k = ucast k"
      by (subst get_tag.simps) (simp add: Let_def)
    with False show ?thesis by simp
  qed
qed

text \<open>
  C8. For every key the tag derivation ends (\<^const>\<open>get_tag\<close> is a total function, its
  termination proved with its definition) and the derived 16-bit tag differs from the
  empty tag and from the tombstone tag.
\<close>

theorem C8_get_tag_avoids_reserved_tags:
  "get_tag cfg k \<noteq> get_empty_tag cfg \<and> get_tag cfg k \<noteq> get_tombstone_tag cfg"
  by (rule get_tag_not_reserved)

section \<open>Leader election and the scans of a bucket\<close>

lemma leader_loop_find:
  assumes "\<And>l s. attempt l s = (if P l s then (True, U l s) else (False, s))"
  shows "leader_loop ls attempt s =
         (case find (\<lambda>l. P l s) ls of None \<Rightarrow> (None, s) | Some l \<Rightarrow> (Some l, U l s))"
  by (induction ls) (simp_all add: assms)

lemma round_loop_find:
  assumes "\<And>offset. offset \<in> set offs \<Longrightarrow> fst (body offset s) = None \<Longrightarrow> snd (body offset s) = s"
  shows "round_loop offs body s =
         (case find (\<lambda>offset. fst (body offset s) \<noteq> None) offs of
            None \<Rightarrow> (None, s) | Some offset \<Rightarrow> body offset s)"
  using assms
proof (induction offs)
  case Nil
  then show ?case by simp
next
  case (Cons a offs)
  obtain r s' where b: "body a s = (r, s')" by (cases "body a s")
  show ?case
  proof (cases r)
    case None
    with b Cons.prems[of a] have "s' = s" by simp
    with None b Cons show ?thesis by simp
  next
    case (Some x)
    with b show ?thesis by simp
  qed
qed

lemma scan_body_cases:
  "(\<exists>l. l < partition_size cfg \<and> Q (offset + l) s \<and> P (offset + l) s
         \<and> scan_body cfg Q P U offset s = (Some l, U (offset + l) s))
   \<or> ((\<forall>l < partition_size cfg. Q (offset + l) s \<longrightarrow> \<not> P (offset + l) s)
       \<and> scan_body cfg Q P U offset s = (None, s))"
proof -
  let ?ls = "ballot cfg (\<lambda>rank. Q (offset + rank) s)"
  have eq: "scan_body cfg Q P U offset s =
        (case find (\<lambda>l. P (offset + l) s) ?ls of None \<Rightarrow> (None, s)
         | Some l \<Rightarrow> (Some l, U (offset + l) s))"
    unfolding scan_body_def by (rule leader_loop_find) simp
  show ?thesis
  proof (cases "find (\<lambda>l. P (offset + l) s) ?ls")
    case None
    then have "\<forall>l \<in> set ?ls. \<not> P (offset + l) s" by (simp add: find_None_iff)
    then have "\<forall>l < partition_size cfg. Q (offset + l) s \<longrightarrow> \<not> P (offset + l) s"
      by (auto simp: ballot_def)
    with None eq show ?thesis by simp
  next
    case (Some l)
    then have "l \<in> set ?ls" "P (offset + l) s"
      by (auto simp: find_Some_iff)
    then have "l < partition_size cfg" "Q (offset + l) s" by (auto simp: ballot_def)
    with Some eq \<open>P (offset + l) s\<close> show ?thesis by auto
  qed
qed

lemma bucket_le_n_traversals:
  assumes "0 < partition_size cfg"
  shows "bucket_size cfg \<le> n_traversals cfg"
proof -
  have "bucket_size cfg - 1 < ((bucket_size cfg - 1) div partition_size cfg + 1) * partition_size cfg"
    using assms by (metis Suc_eq_plus1 dividend_less_div_times mult.commute mult_Suc)
  then show ?thesis by (simp add: n_traversals_def)
qed

lemma lane_rounds_cover:
  assumes "0 < partition_size cfg" "i < limit"
  shows "(i div partition_size cfg) * partition_size cfg \<in> set (lane_rounds cfg limit)"
proof -
  have "i div partition_size cfg < (limit + partition_size cfg - 1) div partition_size cfg"
  proof -
    have a: "i div partition_size cfg \<le> (limit - 1) div partition_size cfg"
      using assms by (intro div_le_mono) simp
    have b: "(limit - 1 + partition_size cfg) div partition_size cfg
             = (limit - 1) div partition_size cfg + 1"
      using assms(1) by (subst div_add_self2) simp_all
    have c: "limit + partition_size cfg - 1 = limit - 1 + partition_size cfg"
      using assms by simp
    show ?thesis unfolding c b using a by simp
  qed
  then show ?thesis by (auto simp: lane_rounds_def)
qed

lemma scan_cases:
  fixes g :: "nat \<Rightarrow> nat \<Rightarrow> nat" and Q P :: "nat \<Rightarrow> 's \<Rightarrow> bool" and U :: "nat \<Rightarrow> 's \<Rightarrow> 's"
    and s :: 's and cfg :: config
  assumes ps: "0 < partition_size cfg"
  defines "res \<equiv> round_loop (lane_rounds cfg (n_traversals cfg))
             (\<lambda>offset s. case scan_body cfg Q P U offset s of
                  (Some leader, s') \<Rightarrow> (Some (g offset leader), s')
                | (None, s') \<Rightarrow> (None, s')) s"
  assumes Qb: "\<And>i. Q i s \<Longrightarrow> i < bucket_size cfg"
  shows "(\<exists>offset l. l < partition_size cfg \<and> Q (offset + l) s \<and> P (offset + l) s
            \<and> res = (Some (g offset l), U (offset + l) s))
         \<or> ((\<forall>i. Q i s \<longrightarrow> \<not> P i s) \<and> res = (None, s))"
proof -
  let ?body = "\<lambda>offset s. case scan_body cfg Q P U offset s of
                  (Some leader, s') \<Rightarrow> (Some (g offset leader), s')
                | (None, s') \<Rightarrow> (None, s')"
  let ?offs = "lane_rounds cfg (n_traversals cfg)"
  have unchanged: "fst (?body offset s) = None \<Longrightarrow> snd (?body offset s) = s" for offset
    using scan_body_cases[of cfg Q offset s P U] by auto
  have eq: "res = (case find (\<lambda>offset. fst (?body offset s) \<noteq> None) ?offs of
            None \<Rightarrow> (None, s) | Some offset \<Rightarrow> ?body offset s)"
    unfolding res_def by (rule round_loop_find) (rule unchanged)
  show ?thesis
  proof (cases "find (\<lambda>offset. fst (?body offset s) \<noteq> None) ?offs")
    case None
    then have none: "\<forall>offset \<in> set ?offs. fst (?body offset s) = None"
      by (simp add: find_None_iff)
    have "\<not> P i s" if "Q i s" for i
    proof -
      let ?o = "(i div partition_size cfg) * partition_size cfg"
      let ?l = "i mod partition_size cfg"
      have "i < n_traversals cfg" using Qb[OF that] bucket_le_n_traversals[OF ps] by simp
      then have "?o \<in> set ?offs" by (rule lane_rounds_cover[OF ps])
      with none have "fst (?body ?o s) = None" by blast
      then have "\<forall>l < partition_size cfg. Q (?o + l) s \<longrightarrow> \<not> P (?o + l) s"
        using scan_body_cases[of cfg Q ?o s P U] by auto
      moreover have "?l < partition_size cfg" using ps by simp
      moreover have "?o + ?l = i" by simp
      ultimately show ?thesis using that by metis
    qed
    with None eq show ?thesis by simp
  next
    case (Some offset)
    then have "fst (?body offset s) \<noteq> None" by (auto simp: find_Some_iff)
    then obtain l where "l < partition_size cfg" "Q (offset + l) s" "P (offset + l) s"
      "scan_body cfg Q P U offset s = (Some l, U (offset + l) s)"
      using scan_body_cases[of cfg Q offset s P U] by auto
    with Some eq show ?thesis by auto
  qed
qed

section \<open>The ballots of \<open>load_fill_ballots_huge\<close>\<close>

lemma bit_set_index: "bit (set_index n) m \<longleftrightarrow> m = n \<and> n < 32"
  by (auto simp: set_index_def SET_BIT_MASK_def bit_ucast_iff bit_exp_iff)

lemma of_bool_times: "of_bool b * (x :: 32 word) = (if b then x else 0)"
  by simp

lemma chunk_fold_bits:
  fixes L :: "tag list"
  assumes "fold (\<lambda>j (local_empty, local_tombstone, local_match).
             let loaded_tag = L ! j in
             (local_empty OR of_bool (loaded_tag = et) * set_index (base + j),
              local_tombstone OR of_bool (loaded_tag = tt) * set_index (base + j),
              local_match OR of_bool (loaded_tag = kt) * set_index (base + j)))
          js (e, t, m) = (e', t', m')"
  shows "(bit e' n \<longleftrightarrow> bit e n \<or> (\<exists>j\<in>set js. n = base + j \<and> n < 32 \<and> L ! j = et))
       \<and> (bit t' n \<longleftrightarrow> bit t n \<or> (\<exists>j\<in>set js. n = base + j \<and> n < 32 \<and> L ! j = tt))
       \<and> (bit m' n \<longleftrightarrow> bit m n \<or> (\<exists>j\<in>set js. n = base + j \<and> n < 32 \<and> L ! j = kt))"
  using assms
proof (induction js arbitrary: e t m)
  case Nil
  then show ?case by simp
next
  case (Cons j js)
  from Cons.prems
  have "fold (\<lambda>j (local_empty, local_tombstone, local_match).
             let loaded_tag = L ! j in
             (local_empty OR of_bool (loaded_tag = et) * set_index (base + j),
              local_tombstone OR of_bool (loaded_tag = tt) * set_index (base + j),
              local_match OR of_bool (loaded_tag = kt) * set_index (base + j)))
          js (e OR of_bool (L ! j = et) * set_index (base + j),
              t OR of_bool (L ! j = tt) * set_index (base + j),
              m OR of_bool (L ! j = kt) * set_index (base + j)) = (e', t', m')"
    by (simp add: Let_def)
  from Cons.IH[OF this] show ?case
    by (auto simp: bit_or_iff bit_set_index of_bool_times split: if_splits)
qed

lemma chunk_ballots_bits:
  assumes "chunk_ballots cfg md kt i = (e, t, m)"
  shows "(bit e n \<longleftrightarrow> (\<exists>j<8. n = i * 8 + j \<and> n < 32 \<and> md ! n = get_empty_tag cfg))
       \<and> (bit t n \<longleftrightarrow> (\<exists>j<8. n = i * 8 + j \<and> n < 32 \<and> md ! n = get_tombstone_tag cfg))
       \<and> (bit m n \<longleftrightarrow> (\<exists>j<8. n = i * 8 + j \<and> n < 32 \<and> md ! n = kt))"
proof -
  have L: "load_multi_tags md (i * 8) ! j = md ! (i * 8 + j)" if "j < 8" for j
    using that by (simp add: load_multi_tags_def)
  have A: "(\<exists>j\<in>set [0..<8]. n = i * 8 + j \<and> n < 32 \<and> load_multi_tags md (i * 8) ! j = x)
           = (\<exists>j<8. n = i * 8 + j \<and> n < 32 \<and> md ! n = x)" for x
    by (simp only: set_upt Bex_def atLeastLessThan_iff) (auto simp: L)
  have Z: "\<not> bit (0 :: 32 word) n" by simp
  from chunk_fold_bits[OF assms[unfolded chunk_ballots_def], of n]
  show ?thesis by (simp only: A Z simp_thms)
qed

lemma lane_fold_bits:
  fixes C :: "nat \<Rightarrow> ballots"
  assumes "fold (\<lambda>offset (empty_match, tombstone_match, key_match).
             let i = offset + rank in
             if i < lim \<and> V i
             then (case C i of
                     (local_empty, local_tombstone, local_match) \<Rightarrow>
                       (empty_match OR local_empty, tombstone_match OR local_tombstone,
                        key_match OR local_match))
             else (empty_match, tombstone_match, key_match))
          offs (e, t, m) = (e', t', m')"
  shows "(bit e' n \<longleftrightarrow> bit e n \<or> (\<exists>offset\<in>set offs. offset + rank < lim \<and> V (offset + rank) \<and> bit (fst (C (offset + rank))) n))
       \<and> (bit t' n \<longleftrightarrow> bit t n \<or> (\<exists>offset\<in>set offs. offset + rank < lim \<and> V (offset + rank) \<and> bit (fst (snd (C (offset + rank)))) n))
       \<and> (bit m' n \<longleftrightarrow> bit m n \<or> (\<exists>offset\<in>set offs. offset + rank < lim \<and> V (offset + rank) \<and> bit (snd (snd (C (offset + rank)))) n))"
  using assms
proof (induction offs arbitrary: e t m)
  case Nil
  then show ?case by simp
next
  case (Cons a offs)
  obtain le lt lm where C: "C (a + rank) = (le, lt, lm)" by (cases "C (a + rank)") auto
  show ?case
  proof (cases "a + rank < lim \<and> V (a + rank)")
    case True
    with Cons.prems C have "fold (\<lambda>offset (empty_match, tombstone_match, key_match).
             let i = offset + rank in
             if i < lim \<and> V i
             then (case C i of
                     (local_empty, local_tombstone, local_match) \<Rightarrow>
                       (empty_match OR local_empty, tombstone_match OR local_tombstone,
                        key_match OR local_match))
             else (empty_match, tombstone_match, key_match))
          offs (e OR le, t OR lt, m OR lm) = (e', t', m')"
      by (simp add: Let_def)
    from Cons.IH[OF this] True C show ?thesis
      by (simp add: bit_or_iff)
  next
    case False
    with Cons.prems have "fold (\<lambda>offset (empty_match, tombstone_match, key_match).
             let i = offset + rank in
             if i < lim \<and> V i
             then (case C i of
                     (local_empty, local_tombstone, local_match) \<Rightarrow>
                       (empty_match OR local_empty, tombstone_match OR local_tombstone,
                        key_match OR local_match))
             else (empty_match, tombstone_match, key_match))
          offs (e, t, m) = (e', t', m')"
      by (simp add: Let_def)
    from Cons.IH[OF this] False show ?thesis
      by simp blast
  qed
qed

lemma pred_mult_div:
  fixes p q :: nat
  assumes "0 < p" "0 < q"
  shows "(p * q - 1) div p = q - 1"
proof -
  obtain q' where q: "q = Suc q'" using assms(2) by (cases q) auto
  have "p * q - 1 = q' * p + (p - 1)" using assms(1) by (simp add: q algebra_simps)
  also have "\<dots> div p = q' + (p - 1) div p" using assms(1) by (subst div_mult_self3) simp_all
  also have "\<dots> = q'" using assms(1) by simp
  finally show ?thesis by (simp add: q)
qed

lemma wf_n_traversals: "wf_config cfg \<Longrightarrow> n_traversals cfg = bucket_size cfg"
proof -
  assume wf: "wf_config cfg"
  then have "partition_size cfg dvd bucket_size cfg"
    unfolding wf_config_def by (metis dvd_div_mult_self dvd_mult2)
  then obtain q where q: "bucket_size cfg = partition_size cfg * q" by (auto simp: dvd_def)
  with wf have "0 < q" "0 < partition_size cfg" by (auto simp: wf_config_def)
  then have "(partition_size cfg * q - 1) div partition_size cfg = q - 1"
    by (rule pred_mult_div[rotated])
  with q \<open>0 < q\<close> show ?thesis
    by (simp add: n_traversals_def algebra_simps)
qed

lemma wf_huge_limit: "wf_config cfg \<Longrightarrow> huge_limit cfg = bucket_size cfg div 8"
proof -
  assume wf: "wf_config cfg"
  then obtain q where q: "bucket_size cfg = 8 * q" by (auto simp: wf_config_def dvd_def)
  with wf have "0 < q" by (auto simp: wf_config_def)
  then have "(8 * q - 1) div 8 = q - 1" by (intro pred_mult_div) simp_all
  with q \<open>0 < q\<close> wf show ?thesis
    by (simp add: huge_limit_def wf_n_traversals)
qed

lemma lane_rounds_dvd: "offset \<in> set (lane_rounds cfg lim) \<Longrightarrow> partition_size cfg dvd offset"
  by (auto simp: lane_rounds_def)

lemma valid_to_load_iff: "valid_to_load cfg i \<longleftrightarrow> i < bucket_size cfg + 1"
  by (simp add: valid_to_load_def)

lemma chunk_index:
  fixes n :: nat
  assumes "8 dvd b"
  shows "n < b \<longleftrightarrow> n div 8 < b div 8"
proof -
  obtain q where q: "b = 8 * q" using assms by (auto simp: dvd_def)
  show ?thesis unfolding q by (simp add: div_less_iff_less_mult mult.commute)
qed

lemma lane_ballots_bits:
  assumes wf: "wf_config cfg" and r: "rank < partition_size cfg"
    and eq: "lane_ballots cfg md kt rank = (e, t, m)"
  shows "(bit e n \<longleftrightarrow> n < bucket_size cfg \<and> (n div 8) mod partition_size cfg = rank \<and> md ! n = get_empty_tag cfg)
       \<and> (bit t n \<longleftrightarrow> n < bucket_size cfg \<and> (n div 8) mod partition_size cfg = rank \<and> md ! n = get_tombstone_tag cfg)
       \<and> (bit m n \<longleftrightarrow> n < bucket_size cfg \<and> (n div 8) mod partition_size cfg = rank \<and> md ! n = kt)"
proof -
  let ?ps = "partition_size cfg" and ?bs = "bucket_size cfg"
  let ?offs = "lane_rounds cfg (huge_limit cfg)"
  have ps: "0 < ?ps" and d8: "8 dvd ?bs" and le32: "?bs \<le> 32"
    using wf by (auto simp: wf_config_def)
  have lim: "huge_limit cfg = ?bs div 8" by (rule wf_huge_limit[OF wf])
  have key: "(\<exists>offset\<in>set ?offs. offset + rank < huge_limit cfg \<and> valid_to_load cfg (offset + rank)
                \<and> (\<exists>j<8. n = (offset + rank) * 8 + j \<and> n < 32 \<and> md ! n = x))
             \<longleftrightarrow> n < ?bs \<and> (n div 8) mod ?ps = rank \<and> md ! n = x" (is "?L = ?R") for x
  proof
    assume ?L
    then obtain offset j where o: "offset \<in> set ?offs" "offset + rank < ?bs div 8"
      and j: "j < 8" "n = (offset + rank) * 8 + j" "md ! n = x"
      unfolding lim by blast
    have c: "n div 8 = offset + rank" using j by simp
    have "?ps dvd offset" using o(1) by (rule lane_rounds_dvd)
    then have "(offset + rank) mod ?ps = rank" using r by (auto simp: dvd_def)
    moreover have "n < ?bs" using chunk_index[OF d8, of n] c o(2) by simp
    ultimately show ?R using c j by simp
  next
    assume R: ?R
    let ?c = "n div 8"
    let ?o = "(?c div ?ps) * ?ps"
    have c: "?c < ?bs div 8" using chunk_index[OF d8, of n] R by simp
    then have "?o \<in> set ?offs" unfolding lim[symmetric] by (rule lane_rounds_cover[OF ps])
    moreover have oc: "?o + rank = ?c" using R by (metis div_mult_mod_eq)
    moreover have "?c < huge_limit cfg" using c lim by simp
    moreover have "valid_to_load cfg ?c" using c by (simp add: valid_to_load_iff)
    moreover have "n mod 8 < 8" "n = ?c * 8 + n mod 8" by simp_all
    moreover have "n < 32" using R le32 by simp
    ultimately show ?L using R by (metis (no_types, lifting))
  qed
  obtain ce where ce: "\<And>i. chunk_ballots cfg md kt i = (fst (chunk_ballots cfg md kt i), fst (snd (chunk_ballots cfg md kt i)), snd (snd (chunk_ballots cfg md kt i)))"
    by simp
  have cb: "(bit (fst (chunk_ballots cfg md kt i)) n \<longleftrightarrow> (\<exists>j<8. n = i * 8 + j \<and> n < 32 \<and> md ! n = get_empty_tag cfg))
       \<and> (bit (fst (snd (chunk_ballots cfg md kt i))) n \<longleftrightarrow> (\<exists>j<8. n = i * 8 + j \<and> n < 32 \<and> md ! n = get_tombstone_tag cfg))
       \<and> (bit (snd (snd (chunk_ballots cfg md kt i))) n \<longleftrightarrow> (\<exists>j<8. n = i * 8 + j \<and> n < 32 \<and> md ! n = kt))" for i
    by (rule chunk_ballots_bits) simp
  have Z: "\<not> bit (0 :: 32 word) n" by simp
  from lane_fold_bits[OF eq[unfolded lane_ballots_def], of n]
  show ?thesis by (simp only: cb key Z simp_thms)
qed

lemma bit_sum_list_disjoint:
  fixes f :: "nat \<Rightarrow> 32 word"
  assumes "distinct rs" and "\<And>r n. r \<in> set rs \<Longrightarrow> bit (f r) n \<Longrightarrow> g n = r"
  shows "bit (sum_list (map f rs)) n \<longleftrightarrow> (\<exists>r\<in>set rs. bit (f r) n)"
  using assms
proof (induction rs arbitrary: n)
  case Nil
  then show ?case by simp
next
  case (Cons r rs)
  have IH: "bit (sum_list (map f rs)) k \<longleftrightarrow> (\<exists>r\<in>set rs. bit (f r) k)" for k
    using Cons.prems by (intro Cons.IH) auto
  have disj: "\<not> bit (f r) k \<or> \<not> bit (sum_list (map f rs)) k" for k
  proof (rule ccontr)
    assume "\<not> ?thesis"
    then have a: "bit (f r) k" and "bit (sum_list (map f rs)) k" by auto
    then obtain r' where r': "r' \<in> set rs" "bit (f r') k" using IH by blast
    from a have "g k = r" using Cons.prems(2) by simp
    moreover from r' have "g k = r'" using Cons.prems(2) by simp
    ultimately show False using r'(1) Cons.prems(1) by simp
  qed
  have "sum_list (map f (r # rs)) = f r OR sum_list (map f rs)"
    using disjunctive_add[of "f r" "sum_list (map f rs)"] disj by simp
  then show ?case by (simp add: bit_or_iff IH)
qed

lemma load_fill_ballots_huge_bits:
  assumes wf: "wf_config cfg" and eq: "load_fill_ballots_huge cfg md k = (e, t, m)"
  shows "(bit e n \<longleftrightarrow> n < bucket_size cfg \<and> md ! n = get_empty_tag cfg)
       \<and> (bit t n \<longleftrightarrow> n < bucket_size cfg \<and> md ! n = get_tombstone_tag cfg)
       \<and> (bit m n \<longleftrightarrow> n < bucket_size cfg \<and> md ! n = get_tag cfg k)"
proof -
  let ?ps = "partition_size cfg" and ?bs = "bucket_size cfg"
  let ?L = "lane_ballots cfg md (get_tag cfg k)"
  let ?g = "\<lambda>n. (n div 8) mod ?ps"
  have ps: "0 < ?ps" using wf by (simp add: wf_config_def)
  have lane: "(bit (fst (?L r)) n \<longleftrightarrow> n < ?bs \<and> ?g n = r \<and> md ! n = get_empty_tag cfg)
       \<and> (bit (fst (snd (?L r))) n \<longleftrightarrow> n < ?bs \<and> ?g n = r \<and> md ! n = get_tombstone_tag cfg)
       \<and> (bit (snd (snd (?L r))) n \<longleftrightarrow> n < ?bs \<and> ?g n = r \<and> md ! n = get_tag cfg k)"
    if "r < ?ps" for r n
    by (rule lane_ballots_bits[OF wf that]) simp
  have s1: "bit (sum_list (map (fst \<circ> ?L) [0..<?ps])) n \<longleftrightarrow> (\<exists>r\<in>set [0..<?ps]. bit ((fst \<circ> ?L) r) n)"
    by (rule bit_sum_list_disjoint[where g = ?g]) (auto simp: lane)
  have s2: "bit (sum_list (map (fst \<circ> snd \<circ> ?L) [0..<?ps])) n \<longleftrightarrow> (\<exists>r\<in>set [0..<?ps]. bit ((fst \<circ> snd \<circ> ?L) r) n)"
    by (rule bit_sum_list_disjoint[where g = ?g]) (auto simp: lane)
  have s3: "bit (sum_list (map (snd \<circ> snd \<circ> ?L) [0..<?ps])) n \<longleftrightarrow> (\<exists>r\<in>set [0..<?ps]. bit ((snd \<circ> snd \<circ> ?L) r) n)"
    by (rule bit_sum_list_disjoint[where g = ?g]) (auto simp: lane)
  have g: "?g n < ?ps" using ps by simp
  have e: "e = fst (?L 0) OR sum_list (map (fst \<circ> ?L) [0..<?ps])"
    and t: "t = fst (snd (?L 0)) OR sum_list (map (fst \<circ> snd \<circ> ?L) [0..<?ps])"
    and m: "m = snd (snd (?L 0)) OR sum_list (map (snd \<circ> snd \<circ> ?L) [0..<?ps])"
    using eq by (auto simp: load_fill_ballots_huge_def Let_def split_def comp_def)
  show ?thesis
    unfolding e t m bit_or_iff s1 s2 s3
    using lane[OF ps] g by (auto simp: lane)
qed

lemma popc_count:
  assumes le: "length md \<le> 32" and bits: "\<And>n. bit w n \<longleftrightarrow> n < length md \<and> P (md ! n)"
  shows "popc w = length (filter P md)"
proof -
  have split: "[0..<32] = [0..<length md] @ [length md..<32]"
    using le by (metis le_add_diff_inverse upt_add_eq_append zero_le)
  have a: "filter (bit w) [length md..<32] = []" by (auto simp: bits filter_empty_conv)
  have b: "filter (bit w) [0..<length md] = filter (P \<circ> nth md) [0..<length md]"
    by (rule filter_cong) (auto simp: bits)
  have "length (filter P md) = length (filter P (map (nth md) [0..<length md]))"
    by (simp add: map_nth)
  also have "\<dots> = length (filter (P \<circ> nth md) [0..<length md])"
    by (simp add: filter_map)
  finally show ?thesis unfolding popc_def split by (simp add: a b)
qed

lemma unat_bucket_fill:
  assumes "bucket_size cfg \<le> 32" "popc w \<le> bucket_size cfg"
  shows "unat (bucket_fill cfg w) = bucket_size cfg - popc w"
proof -
  have "bucket_fill cfg w = of_nat (bucket_size cfg - popc w)"
    using assms(2) by (simp add: bucket_fill_def of_nat_diff)
  moreover have "bucket_size cfg - popc w < 2 ^ 32" using assms(1) by simp
  ultimately show ?thesis by (simp add: unat_of_nat)
qed

section \<open>The bucket operations\<close>

lemma pair_if_bool: "(b, if b then x else y) = (if b then (True, x) else (False, y))"
  by simp

lemma case_leader_id:
  "(case x of (Some (l::nat), s') \<Rightarrow> (Some l, s') | (None, s') \<Rightarrow> (None, s')) = x"
  by (cases x) (auto split: option.splits)

lemma match_empty_cases:
  assumes "0 < partition_size cfg"
  shows "(\<exists>i<bucket_size cfg. bit bm i \<and> md ! i = get_empty_tag cfg
            \<and> match_empty cfg md k bm = (Some i, md[i := get_tag cfg k]))
       \<or> ((\<forall>i<bucket_size cfg. bit bm i \<longrightarrow> md ! i \<noteq> get_empty_tag cfg)
            \<and> match_empty cfg md k bm = (None, md))"
proof -
  have eq: "match_empty cfg md k bm =
        round_loop (lane_rounds cfg (n_traversals cfg))
             (\<lambda>offset s. case scan_body cfg (\<lambda>i s. i < bucket_size cfg \<and> bit bm i)
                     (\<lambda>i s. s ! i = get_empty_tag cfg) (\<lambda>i s. s[i := get_tag cfg k]) offset s of
                  (Some leader, s') \<Rightarrow> (Some (offset + leader), s')
                | (None, s') \<Rightarrow> (None, s')) md"
    by (simp add: match_empty_def scan_body_def typed_atomic_write_def Let_def)
  show ?thesis
    unfolding eq
    using scan_cases[OF assms, where Q = "\<lambda>i s. i < bucket_size cfg \<and> bit bm i" and s = md
        and P = "\<lambda>i s. s ! i = get_empty_tag cfg" and U = "\<lambda>i s. s[i := get_tag cfg k]" and g = "\<lambda>offset l. offset + l"]
    by auto
qed

lemma match_tombstone_cases:
  assumes "0 < partition_size cfg"
  shows "(\<exists>i<bucket_size cfg. bit bm i \<and> md ! i = get_tombstone_tag cfg
            \<and> match_tombstone cfg md k bm = (Some i, md[i := get_tag cfg k]))
       \<or> ((\<forall>i<bucket_size cfg. bit bm i \<longrightarrow> md ! i \<noteq> get_tombstone_tag cfg)
            \<and> match_tombstone cfg md k bm = (None, md))"
proof -
  have eq: "match_tombstone cfg md k bm =
        round_loop (lane_rounds cfg (n_traversals cfg))
             (\<lambda>offset s. case scan_body cfg (\<lambda>i s. i < bucket_size cfg \<and> bit bm i)
                     (\<lambda>i s. s ! i = get_tombstone_tag cfg) (\<lambda>i s. s[i := get_tag cfg k]) offset s of
                  (Some leader, s') \<Rightarrow> (Some (offset + leader), s')
                | (None, s') \<Rightarrow> (None, s')) md"
    by (simp add: match_tombstone_def scan_body_def typed_atomic_write_def Let_def)
  show ?thesis
    unfolding eq
    using scan_cases[OF assms, where Q = "\<lambda>i s. i < bucket_size cfg \<and> bit bm i" and s = md
        and P = "\<lambda>i s. s ! i = get_tombstone_tag cfg" and U = "\<lambda>i s. s[i := get_tag cfg k]" and g = "\<lambda>offset l. offset + l"]
    by auto
qed

lemma upsert_existing_cases:
  assumes "0 < partition_size cfg"
  shows "(\<exists>i<bucket_size cfg. \<exists>l. bit bm i \<and> fst (slots ! i) = k
            \<and> upsert_existing cfg slots k v bm = (Some l, slots[i := (k, v)]))
       \<or> ((\<forall>i<bucket_size cfg. bit bm i \<longrightarrow> fst (slots ! i) \<noteq> k)
            \<and> upsert_existing cfg slots k v bm = (None, slots))"
proof -
  have eq: "upsert_existing cfg slots k v bm =
        round_loop (lane_rounds cfg (n_traversals cfg))
             (\<lambda>offset s. case scan_body cfg (\<lambda>i s. i < bucket_size cfg \<and> bit bm i)
                     (\<lambda>i s. fst (s ! i) = k) (\<lambda>i s. s[i := (fst (s ! i), v)]) offset s of
                  (Some leader, s') \<Rightarrow> (Some leader, s')
                | (None, s') \<Rightarrow> (None, s')) slots"
    by (simp add: upsert_existing_def scan_body_def Let_def pair_if_bool case_leader_id)
  show ?thesis
    unfolding eq
    using scan_cases[OF assms, where Q = "\<lambda>i s. i < bucket_size cfg \<and> bit bm i" and s = slots
        and P = "\<lambda>i s. fst (s ! i) = k" and U = "\<lambda>i s. s[i := (fst (s ! i), v)]" and g = "\<lambda>offset l. l"]
    by auto
qed

lemma erase_reference_cases:
  assumes "0 < partition_size cfg"
  shows "(\<exists>i<bucket_size cfg. bit bm i \<and> fst (slots ! i) = k
            \<and> erase_reference cfg slots k bm = (Some i, slots[i := (tombstoneKey cfg, snd (slots ! i))]))
       \<or> ((\<forall>i<bucket_size cfg. bit bm i \<longrightarrow> fst (slots ! i) \<noteq> k)
            \<and> erase_reference cfg slots k bm = (None, slots))"
proof -
  have eq: "erase_reference cfg slots k bm =
        round_loop (lane_rounds cfg (n_traversals cfg))
             (\<lambda>offset s. case scan_body cfg (\<lambda>i s. (i < bucket_size cfg \<and> bit bm i) \<and> fst (s ! i) = k)
                     (\<lambda>i s. fst (s ! i) = k) (\<lambda>i s. s[i := (tombstoneKey cfg, snd (s ! i))]) offset s of
                  (Some leader, s') \<Rightarrow> (Some (offset + leader), s')
                | (None, s') \<Rightarrow> (None, s')) slots"
    by (simp add: erase_reference_def scan_body_def Let_def)
  show ?thesis
    unfolding eq
    using scan_cases[OF assms, where Q = "\<lambda>i s. (i < bucket_size cfg \<and> bit bm i) \<and> fst (s ! i) = k" and s = slots
        and P = "\<lambda>i s. fst (s ! i) = k" and U = "\<lambda>i s. s[i := (tombstoneKey cfg, snd (s ! i))]" and g = "\<lambda>offset l. offset + l"]
    by auto
qed

section \<open>The query of one bucket\<close>

lemma round_loop_unit_Some:
  fixes body :: "nat \<Rightarrow> unit \<Rightarrow> 'r option \<times> unit"
  assumes "fst (round_loop offs body u) = Some r"
  shows "\<exists>offset\<in>set offs. fst (body offset u) = Some r"
  using assms
proof (induction offs)
  case Nil
  then show ?case by simp
next
  case (Cons a offs)
  then show ?case by (cases "body a u") (auto split: option.splits)
qed

lemma round_loop_unit_None:
  fixes body :: "nat \<Rightarrow> unit \<Rightarrow> 'r option \<times> unit"
  assumes "fst (round_loop offs body u) = None"
  shows "\<forall>offset\<in>set offs. fst (body offset u) = None"
  using assms
proof (induction offs)
  case Nil
  then show ?case by simp
next
  case (Cons a offs)
  then show ?case by (cases "body a u") (auto split: option.splits)
qed

lemma ballot_head:
  "(case ballot cfg p of [] \<Rightarrow> (None, u) | leader # _ \<Rightarrow> (Some (f leader), u)) = (Some v, u')
   \<Longrightarrow> \<exists>l<partition_size cfg. p l \<and> v = f l"
proof -
  assume a: "(case ballot cfg p of [] \<Rightarrow> (None, u) | leader # _ \<Rightarrow> (Some (f leader), u)) = (Some v, u')"
  then obtain l ls where l: "ballot cfg p = l # ls" "v = f l"
    by (cases "ballot cfg p") auto
  then have "l \<in> set (ballot cfg p)" by simp
  then have "l < partition_size cfg" "p l" by (auto simp: ballot_def)
  with l show ?thesis by blast
qed

lemma ballot_empty:
  "(case ballot cfg p of [] \<Rightarrow> (None, u) | leader # _ \<Rightarrow> (Some (f leader), u)) = (None, u')
   \<Longrightarrow> \<forall>l<partition_size cfg. \<not> p l"
proof -
  assume "(case ballot cfg p of [] \<Rightarrow> (None, u) | leader # _ \<Rightarrow> (Some (f leader), u)) = (None, u')"
  then have "ballot cfg p = []" by (cases "ballot cfg p") auto
  then show ?thesis by (auto simp: ballot_def filter_empty_conv)
qed

lemma query_md_and_bucket_large_Some:
  assumes wf: "wf_config cfg"
    and q: "query_md_and_bucket_large cfg md k slots = Some v"
  shows "\<exists>n<bucket_size cfg. md ! n = get_tag cfg k \<and> slots ! n = (k, v)"
proof -
  let ?kt = "get_tag cfg k"
  let ?p = "\<lambda>offset j rank. let i = offset + rank in
                       i < huge_limit cfg \<and> valid_to_load cfg i
                       \<and> load_multi_tags md (i * 8) ! j = ?kt
                       \<and> fst (slots ! (i * 8 + j)) = k"
  let ?inner = "\<lambda>offset j (u::unit). case ballot cfg (?p offset j) of
                  [] \<Rightarrow> (None, u)
                | leader # _ \<Rightarrow> (Some (snd (slots ! ((offset + leader) * 8 + j))), u)"
  let ?outer = "\<lambda>offset (u::unit). round_loop [0..<8] (?inner offset) u"
  have d8: "8 dvd bucket_size cfg" using wf by (simp add: wf_config_def)
  from q have "fst (round_loop (lane_rounds cfg (huge_limit cfg)) ?outer ()) = Some v"
    by (simp add: query_md_and_bucket_large_def Let_def)
  then obtain offset where "fst (?outer offset ()) = Some v"
    using round_loop_unit_Some by fast
  then obtain j where j: "j \<in> set [0..<8]" "fst (?inner offset j ()) = Some v"
    using round_loop_unit_Some by fast
  then have "?inner offset j () = (Some v, ())" by (simp add: prod_eq_iff)
  from ballot_head[OF this] obtain l where l: "?p offset j l"
    "v = snd (slots ! ((offset + l) * 8 + j))" by blast
  let ?n = "(offset + l) * 8 + j"
  have j8: "j < 8" using j(1) by simp
  from l(1) have c: "offset + l < bucket_size cfg div 8"
    and t: "load_multi_tags md ((offset + l) * 8) ! j = ?kt" and kk: "fst (slots ! ?n) = k"
    by (simp_all add: Let_def wf_huge_limit[OF wf])
  have "?n div 8 = offset + l" using j8 by simp
  then have "?n < bucket_size cfg" using chunk_index[OF d8, of ?n] c by simp
  moreover have "md ! ?n = ?kt" using t j8 by (simp add: load_multi_tags_def)
  moreover have "slots ! ?n = (k, v)" using kk l(2) by (simp add: prod_eq_iff)
  ultimately show ?thesis by blast
qed

lemma query_md_and_bucket_large_None:
  assumes wf: "wf_config cfg"
    and q: "query_md_and_bucket_large cfg md k slots = None"
    and n: "n < bucket_size cfg"
  shows "\<not> (md ! n = get_tag cfg k \<and> fst (slots ! n) = k)"
proof
  assume hit: "md ! n = get_tag cfg k \<and> fst (slots ! n) = k"
  let ?kt = "get_tag cfg k"
  let ?p = "\<lambda>offset j rank. let i = offset + rank in
                       i < huge_limit cfg \<and> valid_to_load cfg i
                       \<and> load_multi_tags md (i * 8) ! j = ?kt
                       \<and> fst (slots ! (i * 8 + j)) = k"
  let ?inner = "\<lambda>offset j (u::unit). case ballot cfg (?p offset j) of
                  [] \<Rightarrow> (None, u)
                | leader # _ \<Rightarrow> (Some (snd (slots ! ((offset + leader) * 8 + j))), u)"
  let ?outer = "\<lambda>offset (u::unit). round_loop [0..<8] (?inner offset) u"
  have d8: "8 dvd bucket_size cfg" and ps: "0 < partition_size cfg"
    using wf by (simp_all add: wf_config_def)
  let ?c = "n div 8" and ?j = "n mod 8"
  let ?o = "(?c div partition_size cfg) * partition_size cfg" and ?l = "?c mod partition_size cfg"
  have c: "?c < bucket_size cfg div 8" using chunk_index[OF d8, of n] n by simp
  from q have "fst (round_loop (lane_rounds cfg (huge_limit cfg)) ?outer ()) = None"
    by (simp add: query_md_and_bucket_large_def Let_def)
  then have "\<forall>offset\<in>set (lane_rounds cfg (huge_limit cfg)). fst (?outer offset ()) = None"
    by (rule round_loop_unit_None)
  moreover have "?o \<in> set (lane_rounds cfg (huge_limit cfg))"
    using c by (intro lane_rounds_cover[OF ps]) (simp add: wf_huge_limit[OF wf])
  ultimately have "fst (?outer ?o ()) = None" by blast
  then have "\<forall>j\<in>set [0..<8]. fst (?inner ?o j ()) = None"
    by (rule round_loop_unit_None)
  then have "fst (?inner ?o ?j ()) = None" by simp
  then have "?inner ?o ?j () = (None, ())" by (simp add: prod_eq_iff)
  from ballot_empty[OF this] have all: "\<forall>l<partition_size cfg. \<not> ?p ?o ?j l" .
  have l: "?l < partition_size cfg" using ps by simp
  have oc: "?o + ?l = ?c" by simp
  from all l have "\<not> ?p ?o ?j ?l" by blast
  then have np: "\<not> (?c < huge_limit cfg \<and> valid_to_load cfg ?c
                    \<and> load_multi_tags md (?c * 8) ! ?j = ?kt
                    \<and> fst (slots ! (?c * 8 + ?j)) = k)"
    unfolding Let_def oc .
  have "?c * 8 + ?j = n" by simp
  moreover have "load_multi_tags md (?c * 8) ! ?j = md ! n"
    by (simp add: load_multi_tags_def)
  moreover have "valid_to_load cfg ?c" using c by (simp add: valid_to_load_iff)
  moreover have "?c < huge_limit cfg" using c by (simp add: wf_huge_limit[OF wf])
  ultimately show False using hit np by simp
qed

section \<open>The operations of the table\<close>

subsection \<open>The table as an array of slots\<close>

lemma write_slot_fields [simp]:
  "metadata (write_slot t b i x p) = (metadata t)[b := (metadata t ! b)[i := x]]"
  "buckets (write_slot t b i x p) = (buckets t)[b := (buckets t ! b)[i := p]]"
  "n_buckets (write_slot t b i x p) = n_buckets t"
  "seed (write_slot t b i x p) = seed t"
  "locks (write_slot t b i x p) = locks t"
  by (simp_all add: write_slot_def)

lemma write_slot_candidates [simp]:
  "first_bucket (write_slot t b i x p) k = first_bucket t k"
  "second_bucket (write_slot t b i x p) k = second_bucket t k"
  by (simp_all add: first_bucket_def second_bucket_def get_first_bucket_def
      get_second_bucket_def hash_key_def)

lemma shape_write_slot [simp]: "shape cfg (write_slot t b i x p) = shape cfg t"
proof -
  have a: "list_all (\<lambda>md. length md = n) (xs[b := (xs ! b)[i := y]]) = list_all (\<lambda>md. length md = n) xs"
    for n and xs :: "'a list list" and y
  proof (cases "b < length xs")
    case True
    then show ?thesis
      by (auto simp: list_all_length nth_list_update)
  next
    case False
    then show ?thesis by (simp add: list_update_beyond not_less)
  qed
  show ?thesis by (simp add: shape_def a)
qed

lemma locks_free_write_slot [simp]: "locks_free (write_slot t b i x p) = locks_free t"
  by (simp add: locks_free_def)

lemma shape_lengths:
  assumes "shape cfg t" "b < unat (n_buckets t)"
  shows "length (metadata t ! b) = bucket_size cfg" "length (buckets t ! b) = bucket_size cfg"
    "b < length (metadata t)" "b < length (buckets t)"
  using assms by (auto simp: shape_def list_all_length)

lemma tag_write_slot:
  assumes "shape cfg t" "b < unat (n_buckets t)" "i < bucket_size cfg"
  shows "metadata (write_slot t b i x p) ! b' ! i'
         = (if b' = b \<and> i' = i then x else metadata t ! b' ! i')"
  using shape_lengths[OF assms(1,2)] assms(3)
  by (auto simp: nth_list_update)

lemma pair_write_slot:
  assumes "shape cfg t" "b < unat (n_buckets t)" "i < bucket_size cfg"
  shows "buckets (write_slot t b i x p) ! b' ! i'
         = (if b' = b \<and> i' = i then p else buckets t ! b' ! i')"
  using shape_lengths[OF assms(1,2)] assms(3)
  by (auto simp: nth_list_update)

lemma holds_write_slot:
  assumes "shape cfg t" "b < unat (n_buckets t)" "i < bucket_size cfg"
  shows "holds cfg (write_slot t b i x p) b' i' k
         \<longleftrightarrow> (if b' = b \<and> i' = i then x = get_tag cfg k \<and> fst p = k else holds cfg t b' i' k)"
  unfolding holds_def tag_write_slot[OF assms] pair_write_slot[OF assms] by simp

lemma first_bucket_less:
  assumes "shape cfg t"
  shows "first_bucket t k < unat (n_buckets t)"
proof -
  have "0 < unat (n_buckets t)" using assms by (simp add: shape_def unat_gt_0)
  then show ?thesis
    by (simp add: first_bucket_def get_first_bucket_def unat_mod)
qed

lemma second_bucket_less:
  assumes "shape cfg t"
  shows "second_bucket t k < unat (n_buckets t)"
proof -
  have "0 < unat (n_buckets t)" using assms by (simp add: shape_def unat_gt_0)
  then show ?thesis
    by (simp add: second_bucket_def get_second_bucket_def unat_mod)
qed

lemma write_slot_same:
  assumes "shape cfg t" "b < unat (n_buckets t)"
  shows "write_slot t b i (metadata t ! b ! i) (buckets t ! b ! i) = t"
  using shape_lengths[OF assms] by (simp add: write_slot_def)

lemma put_metadata_same:
  "put_metadata t b (metadata t ! b) = t"
  by (simp add: put_metadata_def)

lemma put_bucket_same:
  "put_bucket t b (buckets t ! b) = t"
  by (simp add: put_bucket_def)

lemma claim_as_write_slot:
  "ht_store_packed_pair (put_metadata t b ((metadata t ! b)[i := x])) b i p = write_slot t b i x p"
  by (simp add: ht_store_packed_pair_def put_metadata_def put_bucket_def write_slot_def)

lemma update_as_write_slot:
  assumes "metadata t ! b ! i = x"
  shows "put_bucket t b ((buckets t ! b)[i := p]) = write_slot t b i x p"
  unfolding assms[symmetric] by (simp add: put_bucket_def write_slot_def)

subsection \<open>The sizes computed from the ballots\<close>

lemma live_tag_fun:
  "live_tag cfg = (\<lambda>x. x \<noteq> get_empty_tag cfg \<and> x \<noteq> get_tombstone_tag cfg)"
  by (rule ext) (simp add: live_tag_def)

lemma ballot_sizes:
  assumes wf: "wf_config cfg" and len: "length md = bucket_size cfg"
    and eq: "load_fill_ballots_huge cfg md k = (e, tm, mm)"
  shows "unat (bucket_fill cfg e) = occupied_tags cfg md"
    and "unat (bucket_fill cfg (e OR tm)) = live_tags cfg md"
    and "popc mm = length (filter (\<lambda>x. x = get_tag cfg k) md)"
proof -
  note bits = load_fill_ballots_huge_bits[OF wf eq]
  have le32: "length md \<le> 32" and bs32: "bucket_size cfg \<le> 32"
    using wf len by (simp_all add: wf_config_def)
  have pe: "popc e = length (filter (\<lambda>x. x = get_empty_tag cfg) md)"
    by (rule popc_count[OF le32]) (simp add: bits len)
  have pf: "popc (e OR tm) = length (filter (\<lambda>x. x = get_empty_tag cfg \<or> x = get_tombstone_tag cfg) md)"
    by (rule popc_count[OF le32]) (auto simp: bits len bit_or_iff)
  show "popc mm = length (filter (\<lambda>x. x = get_tag cfg k) md)"
    by (rule popc_count[OF le32]) (simp add: bits len)
  have c1: "length (filter (\<lambda>x. x = get_empty_tag cfg) md) + occupied_tags cfg md = bucket_size cfg"
    unfolding occupied_tags_def len[symmetric] by (rule sum_length_filter_compl)
  have c2: "length (filter (\<lambda>x. x = get_empty_tag cfg \<or> x = get_tombstone_tag cfg) md)
            + live_tags cfg md = bucket_size cfg"
    using sum_length_filter_compl[of "\<lambda>x. x = get_empty_tag cfg \<or> x = get_tombstone_tag cfg" md]
    by (simp add: live_tags_def live_tag_fun len)
  show "unat (bucket_fill cfg e) = occupied_tags cfg md"
    using unat_bucket_fill[OF bs32, of e] pe c1 by simp
  show "unat (bucket_fill cfg (e OR tm)) = live_tags cfg md"
    using unat_bucket_fill[OF bs32, of "e OR tm"] pf c2 by simp
qed

lemma live_tags_full:
  assumes "length md = bucket_size cfg"
  shows "live_tags cfg md = bucket_size cfg \<longleftrightarrow> (\<forall>i<bucket_size cfg. live_tag cfg (md ! i))"
proof -
  have "length (filter (live_tag cfg) md) = length md \<longleftrightarrow> (\<forall>x\<in>set md. live_tag cfg x)"
    by (metis filter_id_conv length_filter_less less_irrefl_nat)
  then show ?thesis using assms by (simp add: live_tags_def all_set_conv_all_nth)
qed

lemma bucket_full_iff:
  assumes wf: "wf_config cfg" and len: "length md = bucket_size cfg"
    and eq: "load_fill_ballots_huge cfg md k = (e, tm, mm)"
  shows "bucket_fill cfg (e OR tm) = of_nat (bucket_size cfg)
         \<longleftrightarrow> (\<forall>i<bucket_size cfg. live_tag cfg (md ! i))"
proof -
  have bs: "bucket_size cfg \<le> 32" using wf by (simp add: wf_config_def)
  have "unat (of_nat (bucket_size cfg) :: 32 word) = bucket_size cfg"
    using bs by (simp add: unat_of_nat)
  then have "bucket_fill cfg (e OR tm) = of_nat (bucket_size cfg)
      \<longleftrightarrow> unat (bucket_fill cfg (e OR tm)) = bucket_size cfg"
    by (metis word_unat_eq_iff)
  then show ?thesis
    using ballot_sizes(2)[OF wf len eq] live_tags_full[OF len] by simp
qed

lemma below_cutoff_iff:
  assumes wf: "wf_config cfg" and len: "length md = bucket_size cfg"
    and eq: "load_fill_ballots_huge cfg md k = (e, tm, mm)"
  shows "below_cutoff cfg (bucket_fill cfg e)
         \<longleftrightarrow> 4 * occupied_tags cfg md < 3 * bucket_size cfg"
  using ballot_sizes(1)[OF wf len eq] by (simp add: below_cutoff_def)

lemma below_cutoff_has_empty:
  assumes len: "length md = bucket_size cfg" and b: "0 < bucket_size cfg"
    and c: "4 * occupied_tags cfg md < 3 * bucket_size cfg"
  shows "\<exists>i<bucket_size cfg. md ! i = get_empty_tag cfg"
proof (rule ccontr)
  assume "\<not> ?thesis"
  then have "\<forall>x\<in>set md. x \<noteq> get_empty_tag cfg"
    using len by (auto simp: all_set_conv_all_nth)
  then have "filter (\<lambda>x. x \<noteq> get_empty_tag cfg) md = md" by (simp add: filter_id_conv)
  then have "occupied_tags cfg md = bucket_size cfg" by (simp add: occupied_tags_def len)
  with c b show False by simp
qed

subsection \<open>The steps of an upsert\<close>

lemma update_in_place_cases:
  assumes wf: "wf_config cfg" and sh: "shape cfg t" and b: "b < unat (n_buckets t)"
    and eq: "load_fill_ballots_huge cfg (metadata t ! b) k = (e, tm, mm)"
  shows "(\<exists>i<bucket_size cfg. holds cfg t b i k
            \<and> update_in_place cfg t b k v mm = (True, write_slot t b i (get_tag cfg k) (k, v)))
       \<or> ((\<forall>i<bucket_size cfg. \<not> holds cfg t b i k)
            \<and> update_in_place cfg t b k v mm = (False, t))"
proof -
  note bits = load_fill_ballots_huge_bits[OF wf eq]
  note len = shape_lengths(1)[OF sh b]
  have ps: "0 < partition_size cfg" using wf by (simp add: wf_config_def)
  show ?thesis
  proof (cases "popc mm = 0")
    case True
    then have "filter (\<lambda>x. x = get_tag cfg k) (metadata t ! b) = []"
      using ballot_sizes(3)[OF wf len eq] by simp
    then have "\<forall>i<bucket_size cfg. metadata t ! b ! i \<noteq> get_tag cfg k"
      using len by (auto simp: filter_empty_conv)
    then have "\<forall>i<bucket_size cfg. \<not> holds cfg t b i k" by (simp add: holds_def)
    with True show ?thesis by (simp add: update_in_place_def)
  next
    case False
    from upsert_existing_cases[OF ps, where bm = mm and slots = "buckets t ! b" and k = k and v = v]
    consider (hit) i l where "i < bucket_size cfg" "bit mm i" "fst (buckets t ! b ! i) = k"
        "upsert_existing cfg (buckets t ! b) k v mm = (Some l, (buckets t ! b)[i := (k, v)])"
      | (miss) "\<forall>i<bucket_size cfg. bit mm i \<longrightarrow> fst (buckets t ! b ! i) \<noteq> k"
        "upsert_existing cfg (buckets t ! b) k v mm = (None, buckets t ! b)"
      by blast
    then show ?thesis
    proof cases
      case hit
      have tg: "metadata t ! b ! i = get_tag cfg k" using hit(2) bits by simp
      then have "holds cfg t b i k" using hit(3) by (simp add: holds_def)
      moreover have "update_in_place cfg t b k v mm = (True, write_slot t b i (get_tag cfg k) (k, v))"
        using False hit(4) update_as_write_slot[OF tg] by (simp add: update_in_place_def)
      ultimately show ?thesis using hit(1) by blast
    next
      case miss
      have "\<forall>i<bucket_size cfg. \<not> holds cfg t b i k"
        using miss(1) bits by (auto simp: holds_def)
      moreover have "update_in_place cfg t b k v mm = (False, t)"
        using False miss(2) by (simp add: update_in_place_def put_bucket_same)
      ultimately show ?thesis by blast
    qed
  qed
qed

lemma claim_slot_cases:
  assumes wf: "wf_config cfg" and sh: "shape cfg t" and b: "b < unat (n_buckets t)"
    and eq: "load_fill_ballots_huge cfg (metadata t ! b) k = (e, tm, mm)"
  shows "(\<exists>i<bucket_size cfg. \<not> live_tag cfg (metadata t ! b ! i)
            \<and> claim_slot cfg t b k v tm e = (True, write_slot t b i (get_tag cfg k) (k, v)))
       \<or> ((\<forall>i<bucket_size cfg. live_tag cfg (metadata t ! b ! i))
            \<and> claim_slot cfg t b k v tm e = (False, t))"
proof -
  note bits = load_fill_ballots_huge_bits[OF wf eq]
  have ps: "0 < partition_size cfg" using wf by (simp add: wf_config_def)
  let ?md = "metadata t ! b"
  from match_tombstone_cases[OF ps, where bm = tm and md = ?md and k = k]
  consider (tomb) i where "i < bucket_size cfg" "?md ! i = get_tombstone_tag cfg"
        "match_tombstone cfg ?md k tm = (Some i, ?md[i := get_tag cfg k])"
    | (none) "\<forall>i<bucket_size cfg. bit tm i \<longrightarrow> ?md ! i \<noteq> get_tombstone_tag cfg"
        "match_tombstone cfg ?md k tm = (None, ?md)"
    by blast
  then show ?thesis
  proof cases
    case tomb
    have "\<not> live_tag cfg (?md ! i)" using tomb(2) by (simp add: live_tag_def)
    moreover have "claim_slot cfg t b k v tm e = (True, write_slot t b i (get_tag cfg k) (k, v))"
      using tomb(3) by (simp add: claim_slot_def claim_as_write_slot)
    ultimately show ?thesis using tomb(1) by blast
  next
    case none
    have nt: "\<forall>i<bucket_size cfg. ?md ! i \<noteq> get_tombstone_tag cfg"
      using none(1) bits by simp
    from match_empty_cases[OF ps, where bm = e and md = ?md and k = k]
    consider (empty) i where "i < bucket_size cfg" "?md ! i = get_empty_tag cfg"
          "match_empty cfg ?md k e = (Some i, ?md[i := get_tag cfg k])"
      | (full) "\<forall>i<bucket_size cfg. bit e i \<longrightarrow> ?md ! i \<noteq> get_empty_tag cfg"
          "match_empty cfg ?md k e = (None, ?md)"
      by blast
    then show ?thesis
    proof cases
      case empty
      have "\<not> live_tag cfg (?md ! i)" using empty(2) by (simp add: live_tag_def)
      moreover have "claim_slot cfg t b k v tm e = (True, write_slot t b i (get_tag cfg k) (k, v))"
        using none(2) empty(3) by (simp add: claim_slot_def claim_as_write_slot)
      ultimately show ?thesis using empty(1) by blast
    next
      case full
      have "\<forall>i<bucket_size cfg. ?md ! i \<noteq> get_empty_tag cfg"
        using full(1) bits by simp
      with nt have "\<forall>i<bucket_size cfg. live_tag cfg (?md ! i)" by (simp add: live_tag_def)
      moreover have "claim_slot cfg t b k v tm e = (False, t)"
        using none(2) full(2) by (simp add: claim_slot_def put_metadata_same)
      ultimately show ?thesis by blast
    qed
  qed
qed

lemma shortcut_loop_eq:
  assumes wf: "wf_config cfg" and sh: "shape cfg t" and b: "b0 < unat (n_buckets t)"
    and eq: "load_fill_ballots_huge cfg (metadata t ! b0) k = (e, tm, mm)"
  shows "shortcut_loop cfg b0 k v (t, (e, tm, mm)) =
         (if 4 * occupied_tags cfg (metadata t ! b0) < 3 * bucket_size cfg
          then Some (Inl (True, snd (shortcut_attempt cfg t b0 k v (e, tm, mm))))
          else Some (Inr (t, (e, tm, mm))))"
    and "4 * occupied_tags cfg (metadata t ! b0) < 3 * bucket_size cfg
         \<Longrightarrow> fst (shortcut_attempt cfg t b0 k v (e, tm, mm))"
proof -
  note len = shape_lengths(1)[OF sh b]
  note gate = below_cutoff_iff[OF wf len eq]
  have bs: "0 < bucket_size cfg" using wf by (simp add: wf_config_def)
  show att: "fst (shortcut_attempt cfg t b0 k v (e, tm, mm))"
    if g: "4 * occupied_tags cfg (metadata t ! b0) < 3 * bucket_size cfg"
  proof -
    from below_cutoff_has_empty[OF len bs g]
    have nf: "\<not> (\<forall>i<bucket_size cfg. live_tag cfg (metadata t ! b0 ! i))"
      by (auto simp: live_tag_def)
    from update_in_place_cases[OF wf sh b eq, of v]
    show ?thesis
    proof
      assume "\<exists>i<bucket_size cfg. holds cfg t b0 i k
            \<and> update_in_place cfg t b0 k v mm = (True, write_slot t b0 i (get_tag cfg k) (k, v))"
      then show ?thesis by (auto simp: shortcut_attempt_def)
    next
      assume "(\<forall>i<bucket_size cfg. \<not> holds cfg t b0 i k)
            \<and> update_in_place cfg t b0 k v mm = (False, t)"
      then have u: "update_in_place cfg t b0 k v mm = (False, t)" by simp
      from claim_slot_cases[OF wf sh b eq, of v] nf
      have "fst (claim_slot cfg t b0 k v tm e)" by auto
      with u show ?thesis by (simp add: shortcut_attempt_def)
    qed
  qed
  show "shortcut_loop cfg b0 k v (t, (e, tm, mm)) =
         (if 4 * occupied_tags cfg (metadata t ! b0) < 3 * bucket_size cfg
          then Some (Inl (True, snd (shortcut_attempt cfg t b0 k v (e, tm, mm))))
          else Some (Inr (t, (e, tm, mm))))"
  proof (cases "4 * occupied_tags cfg (metadata t ! b0) < 3 * bucket_size cfg")
    case True
    with gate have g: "below_cutoff cfg (bucket_fill cfg e)" by simp
    obtain r t' where a: "shortcut_attempt cfg t b0 k v (e, tm, mm) = (r, t')"
      by (cases "shortcut_attempt cfg t b0 k v (e, tm, mm)")
    with att[OF True] have r by simp
    with True g a show ?thesis
      by (subst shortcut_loop.simps) simp
  next
    case False
    with gate have "\<not> below_cutoff cfg (bucket_fill cfg e)" by simp
    with False show ?thesis
      by (subst shortcut_loop.simps) simp
  qed
qed

lemma alternate_attempt_succeeds:
  assumes wf: "wf_config cfg" and sh: "shape cfg t"
    and b0: "b0 < unat (n_buckets t)" and b1: "b1 < unat (n_buckets t)"
    and eq0: "load_fill_ballots_huge cfg (metadata t ! b0) k = (e0, tm0, mm0)"
    and eq1: "load_fill_ballots_huge cfg (metadata t ! b1) k = (e1, tm1, mm1)"
    and nf: "\<not> ((\<forall>i<bucket_size cfg. live_tag cfg (metadata t ! b0 ! i))
                \<and> (\<forall>i<bucket_size cfg. live_tag cfg (metadata t ! b1 ! i)))"
  shows "fst (alternate_attempt cfg t b0 b1 k v (e0, tm0, mm0) (e1, tm1, mm1))"
proof -
  note len0 = shape_lengths(1)[OF sh b0] and len1 = shape_lengths(1)[OF sh b1]
  note s0 = ballot_sizes(2)[OF wf len0 eq0] and s1 = ballot_sizes(2)[OF wf len1 eq1]
  have le: "bucket_fill cfg (e0 OR tm0) \<le> bucket_fill cfg (e1 OR tm1)
            \<longleftrightarrow> live_tags cfg (metadata t ! b0) \<le> live_tags cfg (metadata t ! b1)"
    by (simp add: word_le_nat_alt s0 s1)
  have up0: "live_tags cfg (metadata t ! b0) \<le> bucket_size cfg"
    unfolding live_tags_def len0[symmetric] by (rule length_filter_le)
  have up1: "live_tags cfg (metadata t ! b1) \<le> bucket_size cfg"
    unfolding live_tags_def len1[symmetric] by (rule length_filter_le)
  note f0 = live_tags_full[OF len0] and f1 = live_tags_full[OF len1]
  show ?thesis
  proof (cases "fst (update_in_place cfg t b0 k v mm0)")
    case True
    then show ?thesis by (auto simp: alternate_attempt_def split: prod.splits)
  next
    case False
    then have u0: "update_in_place cfg t b0 k v mm0 = (False, t)"
      using update_in_place_cases[OF wf sh b0 eq0, of v] by auto
    show ?thesis
    proof (cases "fst (update_in_place cfg t b1 k v mm1)")
      case True
      with u0 show ?thesis by (auto simp: alternate_attempt_def split: prod.splits)
    next
      case False
      then have u1: "update_in_place cfg t b1 k v mm1 = (False, t)"
        using update_in_place_cases[OF wf sh b1 eq1, of v] by auto
      show ?thesis
      proof (cases "live_tags cfg (metadata t ! b0) \<le> live_tags cfg (metadata t ! b1)")
        case True
        then have "\<not> (\<forall>i<bucket_size cfg. live_tag cfg (metadata t ! b0 ! i))"
          using nf f0 f1 up0 up1 by auto
        then have "fst (claim_slot cfg t b0 k v tm0 e0)"
          using claim_slot_cases[OF wf sh b0 eq0, of v] by auto
        with u0 u1 True le show ?thesis by (simp add: alternate_attempt_def)
      next
        case False
        then have "\<not> (\<forall>i<bucket_size cfg. live_tag cfg (metadata t ! b1 ! i))"
          using nf f0 f1 up0 up1 by auto
        then have "fst (claim_slot cfg t b1 k v tm1 e1)"
          using claim_slot_cases[OF wf sh b1 eq1, of v] by auto
        with u0 u1 False le show ?thesis by (simp add: alternate_attempt_def)
      qed
    qed
  qed
qed

lemma alternate_loop_eq:
  assumes wf: "wf_config cfg" and sh: "shape cfg t"
    and b0: "b0 < unat (n_buckets t)" and b1: "b1 < unat (n_buckets t)"
    and eq0: "load_fill_ballots_huge cfg (metadata t ! b0) k = (e0, tm0, mm0)"
    and eq1: "load_fill_ballots_huge cfg (metadata t ! b1) k = (e1, tm1, mm1)"
  shows "alternate_loop cfg b0 b1 k v (t, (e0, tm0, mm0), (e1, tm1, mm1)) =
         (if (\<forall>i<bucket_size cfg. live_tag cfg (metadata t ! b0 ! i))
             \<and> (\<forall>i<bucket_size cfg. live_tag cfg (metadata t ! b1 ! i))
          then Some (False, t)
          else Some (True, snd (alternate_attempt cfg t b0 b1 k v (e0, tm0, mm0) (e1, tm1, mm1))))"
proof -
  note len0 = shape_lengths(1)[OF sh b0] and len1 = shape_lengths(1)[OF sh b1]
  note full0 = bucket_full_iff[OF wf len0 eq0] and full1 = bucket_full_iff[OF wf len1 eq1]
  show ?thesis
  proof (cases "(\<forall>i<bucket_size cfg. live_tag cfg (metadata t ! b0 ! i))
             \<and> (\<forall>i<bucket_size cfg. live_tag cfg (metadata t ! b1 ! i))")
    case True
    with full0 full1 show ?thesis
      by (subst alternate_loop.simps) simp
  next
    case False
    obtain r t' where a: "alternate_attempt cfg t b0 b1 k v (e0, tm0, mm0) (e1, tm1, mm1) = (r, t')"
      by (cases "alternate_attempt cfg t b0 b1 k v (e0, tm0, mm0) (e1, tm1, mm1)")
    with alternate_attempt_succeeds[OF wf sh b0 b1 eq0 eq1 False, of v] have r by simp
    have c: "bucket_fill cfg (e0 OR tm0) \<noteq> word_of_nat (bucket_size cfg)
           \<or> bucket_fill cfg (e1 OR tm1) \<noteq> word_of_nat (bucket_size cfg)"
      using False full0 full1 by blast
    show ?thesis
      using False a \<open>r\<close> c by (subst alternate_loop.simps) simp
  qed
qed

lemma absent_iff:
  "absent cfg t k \<longleftrightarrow>
     (\<forall>i<bucket_size cfg. \<not> holds cfg t (first_bucket t k) i k)
     \<and> (\<forall>i<bucket_size cfg. \<not> holds cfg t (second_bucket t k) i k)"
  by (auto simp: absent_def list_all_iff)

lemma bucket_full_nth:
  assumes "shape cfg t" "b < unat (n_buckets t)"
  shows "bucket_full cfg t b \<longleftrightarrow> (\<forall>i<bucket_size cfg. live_tag cfg (metadata t ! b ! i))"
  using shape_lengths(1)[OF assms] by (simp add: bucket_full_def list_all_length)

lemma shortcut_attempt_cases:
  assumes wf: "wf_config cfg" and sh: "shape cfg t" and b: "b0 < unat (n_buckets t)"
    and eq: "load_fill_ballots_huge cfg (metadata t ! b0) k = (e, tm, mm)"
  shows "(\<exists>i<bucket_size cfg. holds cfg t b0 i k
            \<and> shortcut_attempt cfg t b0 k v (e, tm, mm)
                = (True, write_slot t b0 i (get_tag cfg k) (k, v)))
       \<or> ((\<forall>i<bucket_size cfg. \<not> holds cfg t b0 i k)
           \<and> (\<exists>i<bucket_size cfg. \<not> live_tag cfg (metadata t ! b0 ! i)
                \<and> shortcut_attempt cfg t b0 k v (e, tm, mm)
                    = (True, write_slot t b0 i (get_tag cfg k) (k, v))))
       \<or> ((\<forall>i<bucket_size cfg. \<not> holds cfg t b0 i k)
           \<and> (\<forall>i<bucket_size cfg. live_tag cfg (metadata t ! b0 ! i))
           \<and> shortcut_attempt cfg t b0 k v (e, tm, mm) = (False, t))"
  using update_in_place_cases[OF wf sh b eq, of v] claim_slot_cases[OF wf sh b eq, of v]
  by (auto simp: shortcut_attempt_def)

lemma alternate_attempt_cases:
  assumes wf: "wf_config cfg" and sh: "shape cfg t"
    and b0: "b0 < unat (n_buckets t)" and b1: "b1 < unat (n_buckets t)"
    and eq0: "load_fill_ballots_huge cfg (metadata t ! b0) k = (e0, tm0, mm0)"
    and eq1: "load_fill_ballots_huge cfg (metadata t ! b1) k = (e1, tm1, mm1)"
  shows "(\<exists>b i. (b = b0 \<or> b = b1) \<and> i < bucket_size cfg \<and> holds cfg t b i k
            \<and> alternate_attempt cfg t b0 b1 k v (e0, tm0, mm0) (e1, tm1, mm1)
                = (True, write_slot t b i (get_tag cfg k) (k, v)))
       \<or> ((\<forall>i<bucket_size cfg. \<not> holds cfg t b0 i k) \<and> (\<forall>i<bucket_size cfg. \<not> holds cfg t b1 i k)
           \<and> (\<exists>b i. (b = b0 \<or> b = b1) \<and> i < bucket_size cfg \<and> \<not> live_tag cfg (metadata t ! b ! i)
                \<and> alternate_attempt cfg t b0 b1 k v (e0, tm0, mm0) (e1, tm1, mm1)
                    = (True, write_slot t b i (get_tag cfg k) (k, v))))
       \<or> alternate_attempt cfg t b0 b1 k v (e0, tm0, mm0) (e1, tm1, mm1) = (False, t)"
proof -
  from update_in_place_cases[OF wf sh b0 eq0, of v]
  show ?thesis
  proof (elim disjE exE conjE)
    fix i assume "i < bucket_size cfg" "holds cfg t b0 i k"
      "update_in_place cfg t b0 k v mm0 = (True, write_slot t b0 i (get_tag cfg k) (k, v))"
    then show ?thesis by (auto simp: alternate_attempt_def)
  next
    assume n0: "\<forall>i<bucket_size cfg. \<not> holds cfg t b0 i k"
      and u0: "update_in_place cfg t b0 k v mm0 = (False, t)"
    from update_in_place_cases[OF wf sh b1 eq1, of v]
    show ?thesis
    proof (elim disjE exE conjE)
      fix i assume "i < bucket_size cfg" "holds cfg t b1 i k"
        "update_in_place cfg t b1 k v mm1 = (True, write_slot t b1 i (get_tag cfg k) (k, v))"
      with u0 show ?thesis by (auto simp: alternate_attempt_def)
    next
      assume n1: "\<forall>i<bucket_size cfg. \<not> holds cfg t b1 i k"
        and u1: "update_in_place cfg t b1 k v mm1 = (False, t)"
      show ?thesis
      proof (cases "bucket_fill cfg (e0 OR tm0) \<le> bucket_fill cfg (e1 OR tm1)")
        case True
        with u0 u1 have a: "alternate_attempt cfg t b0 b1 k v (e0, tm0, mm0) (e1, tm1, mm1)
            = claim_slot cfg t b0 k v tm0 e0" by (simp add: alternate_attempt_def)
        from claim_slot_cases[OF wf sh b0 eq0, of v] n0 n1 show ?thesis
          unfolding a by blast
      next
        case False
        with u0 u1 have a: "alternate_attempt cfg t b0 b1 k v (e0, tm0, mm0) (e1, tm1, mm1)
            = claim_slot cfg t b1 k v tm1 e1" by (simp add: alternate_attempt_def)
        from claim_slot_cases[OF wf sh b1 eq1, of v] n0 n1 show ?thesis
          unfolding a by blast
      qed
    qed
  qed
qed

lemma upsert_replace_internal_cases:
  assumes wf: "wf_config cfg" and sh: "shape cfg t"
    and ss: "\<forall>i<bucket_size cfg. holds cfg t (second_bucket t k) i k
               \<and> second_bucket t k \<noteq> first_bucket t k \<longrightarrow> \<not> shortcut_open cfg t k"
  shows "(\<exists>b i. (b = first_bucket t k \<or> b = second_bucket t k) \<and> i < bucket_size cfg
            \<and> holds cfg t b i k
            \<and> upsert_replace_internal cfg t k v (hash_key t k) (first_bucket t k)
                = Some (True, write_slot t b i (get_tag cfg k) (k, v)))
       \<or> (absent cfg t k
           \<and> (\<exists>b i. (b = first_bucket t k \<or> (b = second_bucket t k \<and> \<not> shortcut_open cfg t k))
                \<and> i < bucket_size cfg \<and> \<not> live_tag cfg (metadata t ! b ! i)
                \<and> upsert_replace_internal cfg t k v (hash_key t k) (first_bucket t k)
                    = Some (True, write_slot t b i (get_tag cfg k) (k, v))))
       \<or> (\<not> shortcut_open cfg t k \<and> bucket_full cfg t (first_bucket t k)
           \<and> bucket_full cfg t (second_bucket t k)
           \<and> upsert_replace_internal cfg t k v (hash_key t k) (first_bucket t k) = Some (False, t))"
    (is "?A \<or> ?B \<or> ?C")
proof -
  let ?b0 = "first_bucket t k" and ?b1 = "second_bucket t k"
  let ?res = "upsert_replace_internal cfg t k v (hash_key t k) (first_bucket t k)"
  note b0 = first_bucket_less[OF sh, of k] and b1 = second_bucket_less[OF sh, of k]
  obtain e0 tm0 mm0 where eq0: "load_fill_ballots_huge cfg (metadata t ! ?b0) k = (e0, tm0, mm0)"
    by (cases "load_fill_ballots_huge cfg (metadata t ! ?b0) k") auto
  obtain e1 tm1 mm1 where eq1: "load_fill_ballots_huge cfg (metadata t ! ?b1) k = (e1, tm1, mm1)"
    by (cases "load_fill_ballots_huge cfg (metadata t ! ?b1) k") auto
  have sb: "get_second_bucket t (hash_key t k) = ?b1" by (simp add: second_bucket_def)
  show ?thesis
  proof (cases "shortcut_open cfg t k")
    case True
    then have g: "4 * occupied_tags cfg (metadata t ! ?b0) < 3 * bucket_size cfg"
      by (simp add: shortcut_open_def)
    let ?att = "shortcut_attempt cfg t ?b0 k v (e0, tm0, mm0)"
    have r: "?res = Some (True, snd ?att)"
      using shortcut_loop_eq(1)[OF wf sh b0 eq0, of v] g
      by (simp add: upsert_replace_internal_def eq0)
    have f: "fst ?att" by (rule shortcut_loop_eq(2)[OF wf sh b0 eq0 g])
    from shortcut_attempt_cases[OF wf sh b0 eq0, of v]
    consider (hit) i where "i < bucket_size cfg" "holds cfg t ?b0 i k"
        "?att = (True, write_slot t ?b0 i (get_tag cfg k) (k, v))"
      | (claim) i where "\<forall>i<bucket_size cfg. \<not> holds cfg t ?b0 i k" "i < bucket_size cfg"
        "\<not> live_tag cfg (metadata t ! ?b0 ! i)"
        "?att = (True, write_slot t ?b0 i (get_tag cfg k) (k, v))"
      | (fail) "?att = (False, t)"
      by blast
    then show ?thesis
    proof cases
      case hit
      have "?res = Some (True, write_slot t ?b0 i (get_tag cfg k) (k, v))"
        unfolding r hit(3) by simp
      with hit(1,2) have ?A by blast
      then show ?thesis by (rule disjI1)
    next
      case claim
      have n1: "\<forall>i<bucket_size cfg. \<not> holds cfg t ?b1 i k"
        using claim(1) ss True by (cases "?b1 = ?b0") auto
      have "?res = Some (True, write_slot t ?b0 i (get_tag cfg k) (k, v))"
        unfolding r claim(4) by simp
      with claim(1,2,3) n1 have ?B unfolding absent_iff by blast
      then show ?thesis by blast
    next
      case fail
      with f show ?thesis by simp
    qed
  next
    case False
    then have g: "\<not> 4 * occupied_tags cfg (metadata t ! ?b0) < 3 * bucket_size cfg"
      by (simp add: shortcut_open_def)
    let ?att = "alternate_attempt cfg t ?b0 ?b1 k v (e0, tm0, mm0) (e1, tm1, mm1)"
    have r: "?res = alternate_loop cfg ?b0 ?b1 k v (t, (e0, tm0, mm0), (e1, tm1, mm1))"
      using shortcut_loop_eq(1)[OF wf sh b0 eq0, of v] g
      by (simp add: upsert_replace_internal_def eq0 eq1 sb)
    note full0 = bucket_full_nth[OF sh b0] and full1 = bucket_full_nth[OF sh b1]
    show ?thesis
    proof (cases "bucket_full cfg t ?b0 \<and> bucket_full cfg t ?b1")
      case True
      then have "?res = Some (False, t)"
        using alternate_loop_eq[OF wf sh b0 b1 eq0 eq1, of v] full0 full1 r by simp
      with True False have ?C by simp
      then show ?thesis by blast
    next
      case nf: False
      then have nf': "\<not> ((\<forall>i<bucket_size cfg. live_tag cfg (metadata t ! ?b0 ! i))
                \<and> (\<forall>i<bucket_size cfg. live_tag cfg (metadata t ! ?b1 ! i)))"
        using full0 full1 by simp
      then have r': "?res = Some (True, snd ?att)"
        using alternate_loop_eq[OF wf sh b0 b1 eq0 eq1, of v] r by simp
      have f: "fst ?att"
        by (rule alternate_attempt_succeeds[OF wf sh b0 b1 eq0 eq1 nf'])
      from alternate_attempt_cases[OF wf sh b0 b1 eq0 eq1, of v]
      consider (hit) b i where "b = ?b0 \<or> b = ?b1" "i < bucket_size cfg" "holds cfg t b i k"
          "?att = (True, write_slot t b i (get_tag cfg k) (k, v))"
        | (claim) b i where "\<forall>i<bucket_size cfg. \<not> holds cfg t ?b0 i k"
          "\<forall>i<bucket_size cfg. \<not> holds cfg t ?b1 i k"
          "b = ?b0 \<or> b = ?b1" "i < bucket_size cfg" "\<not> live_tag cfg (metadata t ! b ! i)"
          "?att = (True, write_slot t b i (get_tag cfg k) (k, v))"
        | (fail) "?att = (False, t)"
        by blast
      then show ?thesis
      proof cases
        case hit
        have "?res = Some (True, write_slot t b i (get_tag cfg k) (k, v))"
          unfolding r' hit(4) by simp
        with hit(1,2,3) have ?A by blast
        then show ?thesis by (rule disjI1)
      next
        case claim
        have "?res = Some (True, write_slot t b i (get_tag cfg k) (k, v))"
          unfolding r' claim(6) by simp
        with claim(1-5) False have ?B unfolding absent_iff by blast
        then show ?thesis by blast
      next
        case fail
        with f show ?thesis by simp
      qed
    qed
  qed
qed

subsection \<open>The lock of the primary bucket\<close>

lemma lock_update_simps [simp]:
  "first_bucket (t\<lparr>locks := L\<rparr>) k = first_bucket t k"
  "second_bucket (t\<lparr>locks := L\<rparr>) k = second_bucket t k"
  "hash_key (t\<lparr>locks := L\<rparr>) k = hash_key t k"
  "holds cfg (t\<lparr>locks := L\<rparr>) b i k = holds cfg t b i k"
  "shape cfg (t\<lparr>locks := L\<rparr>) = shape cfg t"
  "absent cfg (t\<lparr>locks := L\<rparr>) k = absent cfg t k"
  "bucket_full cfg (t\<lparr>locks := L\<rparr>) b = bucket_full cfg t b"
  "shortcut_open cfg (t\<lparr>locks := L\<rparr>) k = shortcut_open cfg t k"
  "write_slot (t\<lparr>locks := L\<rparr>) b i x p = (write_slot t b i x p)\<lparr>locks := L\<rparr>"
  by (simp_all add: first_bucket_def second_bucket_def hash_key_def get_first_bucket_def
      get_second_bucket_def holds_def shape_def absent_def bucket_full_def shortcut_open_def
      write_slot_def)

lemma stall_lock_free:
  assumes "locks_free t" "b < unat (n_buckets t)"
  shows "stall_lock t b = Some (t\<lparr>locks := (locks t)[b div 64 := SET_BIT_MASK (b mod 64)]\<rparr>)"
proof -
  have h: "b div 64 < length (locks t)"
    using assms by (simp add: locks_free_def list_all_iff)
  then have "locks t ! (b div 64) = 0"
    using assms(1) by (simp add: locks_free_def list_all_length)
  then show ?thesis
    by (subst stall_lock.simps) (simp add: Let_def)
qed

lemma unlock_locked:
  assumes "locks_free t" "b < unat (n_buckets t)"
  shows "unlock (t'\<lparr>locks := (locks t)[b div 64 := SET_BIT_MASK (b mod 64)]\<rparr>) b
         = t'\<lparr>locks := locks t\<rparr>"
proof -
  have h: "b div 64 < length (locks t)"
    using assms by (simp add: locks_free_def list_all_iff)
  then have z: "locks t ! (b div 64) = 0"
    using assms(1) by (simp add: locks_free_def list_all_length)
  have "(locks t)[b div 64 := 0] = locks t" using z by (metis list_update_id)
  then show ?thesis using h by (simp add: unlock_def Let_def)
qed

lemma relock_write_slot:
  "(write_slot t b i x p)\<lparr>locks := locks t\<rparr> = write_slot t b i x p"
  by (simp add: write_slot_def)

lemma relock_same: "t\<lparr>locks := locks t\<rparr> = t"
  by simp

lemma upsert_replace_cases:
  assumes wf: "wf_config cfg" and sh: "shape cfg t" and lf: "locks_free t"
    and ss: "\<forall>i<bucket_size cfg. holds cfg t (second_bucket t k) i k
               \<and> second_bucket t k \<noteq> first_bucket t k \<longrightarrow> \<not> shortcut_open cfg t k"
  shows "(\<exists>b i. (b = first_bucket t k \<or> b = second_bucket t k) \<and> i < bucket_size cfg
            \<and> holds cfg t b i k
            \<and> upsert_replace cfg t k v = Some (True, write_slot t b i (get_tag cfg k) (k, v)))
       \<or> (absent cfg t k
           \<and> (\<exists>b i. (b = first_bucket t k \<or> (b = second_bucket t k \<and> \<not> shortcut_open cfg t k))
                \<and> i < bucket_size cfg \<and> \<not> live_tag cfg (metadata t ! b ! i)
                \<and> upsert_replace cfg t k v = Some (True, write_slot t b i (get_tag cfg k) (k, v))))
       \<or> (\<not> shortcut_open cfg t k \<and> bucket_full cfg t (first_bucket t k)
           \<and> bucket_full cfg t (second_bucket t k)
           \<and> upsert_replace cfg t k v = Some (False, t))"
    (is "?A \<or> ?B \<or> ?C")
proof -
  let ?b0 = "first_bucket t k"
  let ?L = "(locks t)[?b0 div 64 := SET_BIT_MASK (?b0 mod 64)]"
  let ?t1 = "t\<lparr>locks := ?L\<rparr>"
  note b0 = first_bucket_less[OF sh, of k]
  have lock: "stall_lock t ?b0 = Some ?t1" by (rule stall_lock_free[OF lf b0])
  have up: "upsert_replace cfg t k v =
        (case upsert_replace_internal cfg ?t1 k v (hash_key t k) ?b0 of
           None \<Rightarrow> None | Some (return_val, t2) \<Rightarrow> Some (return_val, unlock t2 ?b0))"
    unfolding upsert_replace_def Let_def first_bucket_def[symmetric] lock by simp
  have sh1: "shape cfg ?t1" using sh by simp
  have ss1: "\<forall>i<bucket_size cfg. holds cfg ?t1 (second_bucket ?t1 k) i k
               \<and> second_bucket ?t1 k \<noteq> first_bucket ?t1 k \<longrightarrow> \<not> shortcut_open cfg ?t1 k"
    using ss by simp
  note ul = unlock_locked[OF lf b0]
  from upsert_replace_internal_cases[OF wf sh1 ss1, of v]
  consider (hit) b i where "b = ?b0 \<or> b = second_bucket t k" "i < bucket_size cfg"
      "holds cfg t b i k"
      "upsert_replace_internal cfg ?t1 k v (hash_key t k) ?b0
        = Some (True, (write_slot t b i (get_tag cfg k) (k, v))\<lparr>locks := ?L\<rparr>)"
    | (claim) b i where "absent cfg t k"
      "b = ?b0 \<or> (b = second_bucket t k \<and> \<not> shortcut_open cfg t k)" "i < bucket_size cfg"
      "\<not> live_tag cfg (metadata t ! b ! i)"
      "upsert_replace_internal cfg ?t1 k v (hash_key t k) ?b0
        = Some (True, (write_slot t b i (get_tag cfg k) (k, v))\<lparr>locks := ?L\<rparr>)"
    | (full) "\<not> shortcut_open cfg t k" "bucket_full cfg t ?b0"
      "bucket_full cfg t (second_bucket t k)"
      "upsert_replace_internal cfg ?t1 k v (hash_key t k) ?b0 = Some (False, ?t1)"
    unfolding lock_update_simps by (elim disjE exE conjE) auto
  then show ?thesis
  proof cases
    case hit
    have "upsert_replace cfg t k v = Some (True, write_slot t b i (get_tag cfg k) (k, v))"
      unfolding up hit(4) by (simp add: ul relock_write_slot)
    with hit(1-3) have ?A by blast
    then show ?thesis by (rule disjI1)
  next
    case claim
    have "upsert_replace cfg t k v = Some (True, write_slot t b i (get_tag cfg k) (k, v))"
      unfolding up claim(5) by (simp add: ul relock_write_slot)
    with claim(1-4) have ?B by blast
    then show ?thesis by blast
  next
    case full
    have "upsert_replace cfg t k v = Some (False, t)"
      unfolding up full(4) by (simp add: ul)
    with full(1-3) have ?C by blast
    then show ?thesis by blast
  qed
qed

subsection \<open>Remove and query\<close>

lemma erase_from_cases:
  assumes wf: "wf_config cfg" and sh: "shape cfg t" and b: "b < unat (n_buckets t)"
  shows "(\<exists>i<bucket_size cfg. holds cfg t b i k
            \<and> erase_from cfg t b k
                = (True, write_slot t b i (get_tombstone_tag cfg)
                           (tombstoneKey cfg, snd (buckets t ! b ! i))))
       \<or> ((\<forall>i<bucket_size cfg. \<not> holds cfg t b i k) \<and> erase_from cfg t b k = (False, t))"
proof -
  obtain e tm mm where eq: "load_fill_ballots_huge cfg (metadata t ! b) k = (e, tm, mm)"
    by (cases "load_fill_ballots_huge cfg (metadata t ! b) k") auto
  note bits = load_fill_ballots_huge_bits[OF wf eq]
  have ps: "0 < partition_size cfg" using wf by (simp add: wf_config_def)
  from erase_reference_cases[OF ps, where bm = mm and slots = "buckets t ! b" and k = k]
  consider (hit) i where "i < bucket_size cfg" "bit mm i" "fst (buckets t ! b ! i) = k"
      "erase_reference cfg (buckets t ! b) k mm
        = (Some i, (buckets t ! b)[i := (tombstoneKey cfg, snd (buckets t ! b ! i))])"
    | (miss) "\<forall>i<bucket_size cfg. bit mm i \<longrightarrow> fst (buckets t ! b ! i) \<noteq> k"
      "erase_reference cfg (buckets t ! b) k mm = (None, buckets t ! b)"
    by blast
  then show ?thesis
  proof cases
    case hit
    have "metadata t ! b ! i = get_tag cfg k" using hit(2) bits by simp
    then have h: "holds cfg t b i k" using hit(3) by (simp add: holds_def)
    have "erase_from cfg t b k
          = (True, write_slot t b i (get_tombstone_tag cfg)
                           (tombstoneKey cfg, snd (buckets t ! b ! i)))"
      using hit(4)
      by (simp add: erase_from_def eq put_metadata_def put_bucket_def set_tombstone_def
          write_slot_def)
    with h hit(1) show ?thesis by blast
  next
    case miss
    have "\<forall>i<bucket_size cfg. \<not> holds cfg t b i k"
      using miss(1) bits by (auto simp: holds_def)
    moreover have "erase_from cfg t b k = (False, t)"
      using miss(2) by (simp add: erase_from_def eq put_bucket_same)
    ultimately show ?thesis by blast
  qed
qed

lemma remove_key_cases:
  assumes wf: "wf_config cfg" and sh: "shape cfg t" and lf: "locks_free t"
  shows "(\<exists>b i. (b = first_bucket t k \<or> b = second_bucket t k) \<and> i < bucket_size cfg
            \<and> holds cfg t b i k
            \<and> remove_key cfg t k
                = Some (True, write_slot t b i (get_tombstone_tag cfg)
                                (tombstoneKey cfg, snd (buckets t ! b ! i))))
       \<or> (absent cfg t k \<and> remove_key cfg t k = Some (False, t))"
    (is "?A \<or> ?B")
proof -
  let ?b0 = "first_bucket t k" and ?b1 = "second_bucket t k"
  let ?L = "(locks t)[?b0 div 64 := SET_BIT_MASK (?b0 mod 64)]"
  let ?t1 = "t\<lparr>locks := ?L\<rparr>"
  note b0 = first_bucket_less[OF sh, of k] and b1 = second_bucket_less[OF sh, of k]
  have lock: "stall_lock t ?b0 = Some ?t1" by (rule stall_lock_free[OF lf b0])
  have sh1: "shape cfg ?t1" using sh by simp
  have b01: "?b0 < unat (n_buckets ?t1)" and b11: "?b1 < unat (n_buckets ?t1)"
    using b0 b1 by simp_all
  note ul = unlock_locked[OF lf b0]
  have sb: "get_second_bucket t' (hash_key t k) = ?b1" if "n_buckets t' = n_buckets t" for t'
    using that by (simp add: second_bucket_def get_second_bucket_def)
  have rm: "remove_key cfg t k =
      (case erase_from cfg ?t1 ?b0 k of
         (True, t2) \<Rightarrow> Some (True, unlock t2 ?b0)
       | (False, t2) \<Rightarrow>
           (let bucket_1 = get_second_bucket t2 (hash_key t k)
            in case erase_from cfg t2 bucket_1 k of
                 (True, t3) \<Rightarrow> Some (True, unlock t3 ?b0)
               | (False, t3) \<Rightarrow> Some (False, unlock t3 ?b0)))"
    unfolding remove_key_def Let_def first_bucket_def[symmetric] lock by simp
  from erase_from_cases[OF wf sh1 b01, of k]
  consider (hit0) i where "i < bucket_size cfg" "holds cfg t ?b0 i k"
      "erase_from cfg ?t1 ?b0 k
        = (True, (write_slot t ?b0 i (get_tombstone_tag cfg)
                           (tombstoneKey cfg, snd (buckets t ! ?b0 ! i)))\<lparr>locks := ?L\<rparr>)"
    | (miss0) "\<forall>i<bucket_size cfg. \<not> holds cfg t ?b0 i k" "erase_from cfg ?t1 ?b0 k = (False, ?t1)"
    by (elim disjE exE conjE) auto
  then show ?thesis
  proof cases
    case hit0
    have "remove_key cfg t k = Some (True, write_slot t ?b0 i (get_tombstone_tag cfg)
                           (tombstoneKey cfg, snd (buckets t ! ?b0 ! i)))"
      unfolding rm hit0(3) by (simp add: ul relock_write_slot)
    with hit0(1,2) have ?A by blast
    then show ?thesis by (rule disjI1)
  next
    case miss0
    have rm': "remove_key cfg t k =
           (case erase_from cfg ?t1 ?b1 k of
                 (True, t3) \<Rightarrow> Some (True, unlock t3 ?b0)
               | (False, t3) \<Rightarrow> Some (False, unlock t3 ?b0))"
      unfolding rm miss0(2) by (simp add: sb)
    from erase_from_cases[OF wf sh1 b11, of k]
    consider (hit1) i where "i < bucket_size cfg" "holds cfg t ?b1 i k"
        "erase_from cfg ?t1 ?b1 k
          = (True, (write_slot t ?b1 i (get_tombstone_tag cfg)
                             (tombstoneKey cfg, snd (buckets t ! ?b1 ! i)))\<lparr>locks := ?L\<rparr>)"
      | (miss1) "\<forall>i<bucket_size cfg. \<not> holds cfg t ?b1 i k" "erase_from cfg ?t1 ?b1 k = (False, ?t1)"
      by (elim disjE exE conjE) auto
    then show ?thesis
    proof cases
      case hit1
      have "remove_key cfg t k = Some (True, write_slot t ?b1 i (get_tombstone_tag cfg)
                             (tombstoneKey cfg, snd (buckets t ! ?b1 ! i)))"
        unfolding rm' hit1(3) by (simp add: ul relock_write_slot)
      with hit1(1,2) have ?A by blast
      then show ?thesis by (rule disjI1)
    next
      case miss1
      have "remove_key cfg t k = Some (False, t)"
        unfolding rm' miss1(2) by (simp add: ul)
      moreover have "absent cfg t k" using miss0(1) miss1(1) by (simp add: absent_iff)
      ultimately show ?thesis by blast
    qed
  qed
qed

lemma find_with_reference_Some:
  assumes wf: "wf_config cfg" and q: "fst (find_with_reference cfg t k) = Some v"
  shows "\<exists>b i. (b = first_bucket t k \<or> b = second_bucket t k) \<and> i < bucket_size cfg
           \<and> holds cfg t b i k \<and> snd (buckets t ! b ! i) = v"
proof -
  let ?b0 = "first_bucket t k" and ?b1 = "second_bucket t k"
  let ?q = "\<lambda>b. query_md_and_bucket_large cfg (metadata t ! b) k (buckets t ! b)"
  have "?q ?b0 = Some v \<or> ?q ?b1 = Some v"
    using q by (auto simp: find_with_reference_def Let_def first_bucket_def second_bucket_def
        split: option.splits)
  then obtain b where b: "b = ?b0 \<or> b = ?b1" "?q b = Some v" by blast
  from query_md_and_bucket_large_Some[OF wf b(2)]
  obtain n where "n < bucket_size cfg" "metadata t ! b ! n = get_tag cfg k"
    "buckets t ! b ! n = (k, v)" by blast
  then have "holds cfg t b n k" "snd (buckets t ! b ! n) = v" by (simp_all add: holds_def)
  with b(1) \<open>n < bucket_size cfg\<close> show ?thesis by blast
qed

lemma find_with_reference_None:
  assumes wf: "wf_config cfg" and q: "fst (find_with_reference cfg t k) = None"
  shows "absent cfg t k"
proof -
  let ?b0 = "first_bucket t k" and ?b1 = "second_bucket t k"
  let ?q = "\<lambda>b. query_md_and_bucket_large cfg (metadata t ! b) k (buckets t ! b)"
  have "?q ?b0 = None" "?q ?b1 = None"
    using q by (auto simp: find_with_reference_def Let_def first_bucket_def second_bucket_def
        split: option.splits)
  then show ?thesis
    using query_md_and_bucket_large_None[OF wf]
    by (auto simp: absent_iff holds_def)
qed

subsection \<open>The invariant\<close>

lemma occupied_tags_update:
  assumes "i < length md" "x \<noteq> get_empty_tag cfg"
  shows "occupied_tags cfg md \<le> occupied_tags cfg (md[i := x])"
proof -
  have a: "md[i := x] = take i md @ x # drop (Suc i) md"
    using assms(1) by (rule upd_conv_take_nth_drop)
  have b: "md = take i md @ md ! i # drop (Suc i) md"
    using assms(1) by (rule id_take_nth_drop)
  have "occupied_tags cfg md
        = occupied_tags cfg (take i md @ md ! i # drop (Suc i) md)"
    using b by simp
  also have "\<dots> \<le> occupied_tags cfg (take i md @ x # drop (Suc i) md)"
    using assms(2) by (simp add: occupied_tags_def)
  finally show ?thesis using a by simp
qed

lemma shortcut_open_write_slot:
  assumes sh: "shape cfg t" and b: "b < unat (n_buckets t)" and i: "i < bucket_size cfg"
    and x: "x \<noteq> get_empty_tag cfg"
    and o: "shortcut_open cfg (write_slot t b i x p) k"
  shows "shortcut_open cfg t k"
proof -
  let ?b0 = "first_bucket t k"
  have "occupied_tags cfg (metadata t ! ?b0)
        \<le> occupied_tags cfg (metadata (write_slot t b i x p) ! ?b0)"
  proof (cases "?b0 = b")
    case True
    have "metadata (write_slot t b i x p) ! b = (metadata t ! b)[i := x]"
      using shape_lengths(3)[OF sh b] by simp
    moreover have "i < length (metadata t ! b)" using shape_lengths(1)[OF sh b] i by simp
    ultimately show ?thesis using True occupied_tags_update[OF _ x] by simp
  next
    case False
    then show ?thesis by simp
  qed
  with o show ?thesis by (simp add: shortcut_open_def)
qed

lemma table_inv_D:
  assumes "table_inv cfg t"
  shows "shape cfg t" "locks_free t"
    and "\<And>c c' j j' k. c = first_bucket t k \<or> c = second_bucket t k \<Longrightarrow>
      c' = first_bucket t k \<or> c' = second_bucket t k \<Longrightarrow>
      j < bucket_size cfg \<Longrightarrow> j' < bucket_size cfg \<Longrightarrow>
      holds cfg t c j k \<Longrightarrow> holds cfg t c' j' k \<Longrightarrow> c = c' \<and> j = j'"
    and "\<And>j k. j < bucket_size cfg \<Longrightarrow> holds cfg t (second_bucket t k) j k \<Longrightarrow>
      second_bucket t k \<noteq> first_bucket t k \<Longrightarrow> \<not> shortcut_open cfg t k"
    and "\<And>c j. c < unat (n_buckets t) \<Longrightarrow> j < bucket_size cfg \<Longrightarrow>
      metadata t ! c ! j = get_tag cfg (fst (buckets t ! c ! j))
            \<or> fst (buckets t ! c ! j) = defaultKey cfg
            \<or> fst (buckets t ! c ! j) = tombstoneKey cfg"
proof -
  show "shape cfg t" "locks_free t" using assms by (simp_all add: table_inv_def)
next
  fix c c' j j' k
  assume a: "c = first_bucket t k \<or> c = second_bucket t k"
    "c' = first_bucket t k \<or> c' = second_bucket t k"
    "j < bucket_size cfg" "j' < bucket_size cfg" "holds cfg t c j k" "holds cfg t c' j' k"
  from assms have "\<forall>k. \<forall>b \<in> {first_bucket t k, second_bucket t k}.
          \<forall>b' \<in> {first_bucket t k, second_bucket t k}.
          \<forall>i < bucket_size cfg. \<forall>i' < bucket_size cfg.
            holds cfg t b i k \<and> holds cfg t b' i' k \<longrightarrow> b = b' \<and> i = i'"
    unfolding table_inv_def by (elim conjE)
  then have "\<forall>b \<in> {first_bucket t k, second_bucket t k}.
          \<forall>b' \<in> {first_bucket t k, second_bucket t k}.
          \<forall>i < bucket_size cfg. \<forall>i' < bucket_size cfg.
            holds cfg t b i k \<and> holds cfg t b' i' k \<longrightarrow> b = b' \<and> i = i'" ..
  moreover have "c \<in> {first_bucket t k, second_bucket t k}"
    "c' \<in> {first_bucket t k, second_bucket t k}" using a(1,2) by auto
  ultimately show "c = c' \<and> j = j'" using a(3-6) by blast
next
  fix j k
  assume a: "j < bucket_size cfg" "holds cfg t (second_bucket t k) j k"
    "second_bucket t k \<noteq> first_bucket t k"
  from assms have "\<forall>k. \<forall>i < bucket_size cfg.
            holds cfg t (second_bucket t k) i k \<and> second_bucket t k \<noteq> first_bucket t k
            \<longrightarrow> \<not> shortcut_open cfg t k"
    unfolding table_inv_def by (elim conjE)
  with a show "\<not> shortcut_open cfg t k" by blast
next
  fix c j
  assume a: "c < unat (n_buckets t)" "j < bucket_size cfg"
  from assms have "\<forall>b < unat (n_buckets t). \<forall>i < bucket_size cfg.
            metadata t ! b ! i = get_tag cfg (fst (buckets t ! b ! i))
            \<or> fst (buckets t ! b ! i) = defaultKey cfg
            \<or> fst (buckets t ! b ! i) = tombstoneKey cfg"
    unfolding table_inv_def by (elim conjE)
  with a show "metadata t ! c ! j = get_tag cfg (fst (buckets t ! c ! j))
            \<or> fst (buckets t ! c ! j) = defaultKey cfg
            \<or> fst (buckets t ! c ! j) = tombstoneKey cfg" by blast
qed

lemma table_inv_I:
  assumes "shape cfg t" "locks_free t"
    and uq: "\<And>c c' j j' k. c = first_bucket t k \<or> c = second_bucket t k \<Longrightarrow>
      c' = first_bucket t k \<or> c' = second_bucket t k \<Longrightarrow>
      j < bucket_size cfg \<Longrightarrow> j' < bucket_size cfg \<Longrightarrow>
      holds cfg t c j k \<Longrightarrow> holds cfg t c' j' k \<Longrightarrow> c = c' \<and> j = j'"
    and ss: "\<And>j k. j < bucket_size cfg \<Longrightarrow> holds cfg t (second_bucket t k) j k \<Longrightarrow>
      second_bucket t k \<noteq> first_bucket t k \<Longrightarrow> \<not> shortcut_open cfg t k"
    and s7: "\<And>c j. c < unat (n_buckets t) \<Longrightarrow> j < bucket_size cfg \<Longrightarrow>
      metadata t ! c ! j = get_tag cfg (fst (buckets t ! c ! j))
            \<or> fst (buckets t ! c ! j) = defaultKey cfg
            \<or> fst (buckets t ! c ! j) = tombstoneKey cfg"
  shows "table_inv cfg t"
  unfolding table_inv_def
proof (intro conjI allI ballI impI)
  show "shape cfg t" "locks_free t" by fact+
next
  fix k b b' i i'
  assume "b \<in> {first_bucket t k, second_bucket t k}" "b' \<in> {first_bucket t k, second_bucket t k}"
    "i < bucket_size cfg" "i' < bucket_size cfg" "holds cfg t b i k \<and> holds cfg t b' i' k"
  then have "b = b' \<and> i = i'" using uq[of b k b' i i'] by simp
  then show "b = b'" "i = i'" by simp_all
next
  fix k i
  assume "i < bucket_size cfg"
    "holds cfg t (second_bucket t k) i k \<and> second_bucket t k \<noteq> first_bucket t k"
  then show "\<not> shortcut_open cfg t k" using ss[of i k] by simp
next
  fix b i assume "b < unat (n_buckets t)" "i < bucket_size cfg"
  then show "metadata t ! b ! i = get_tag cfg (fst (buckets t ! b ! i))
            \<or> fst (buckets t ! b ! i) = defaultKey cfg
            \<or> fst (buckets t ! b ! i) = tombstoneKey cfg" by (rule s7)
qed

lemma table_inv_write_slot:
  assumes inv: "table_inv cfg t" and b: "b < unat (n_buckets t)" and i: "i < bucket_size cfg"
    and x: "x \<noteq> get_empty_tag cfg"
    and key: "x = get_tag cfg (fst p) \<or> fst p = defaultKey cfg \<or> fst p = tombstoneKey cfg"
    and alone: "\<And>b' i'. x = get_tag cfg (fst p) \<Longrightarrow>
        b' = first_bucket t (fst p) \<or> b' = second_bucket t (fst p) \<Longrightarrow> i' < bucket_size cfg \<Longrightarrow>
        holds cfg t b' i' (fst p) \<Longrightarrow> b' = b \<and> i' = i"
    and second: "x = get_tag cfg (fst p) \<Longrightarrow> b = second_bucket t (fst p) \<Longrightarrow>
        second_bucket t (fst p) \<noteq> first_bucket t (fst p) \<Longrightarrow> \<not> shortcut_open cfg t (fst p)"
  shows "table_inv cfg (write_slot t b i x p)"
proof -
  let ?t' = "write_slot t b i x p"
  note sh = table_inv_D(1)[OF inv] and lf = table_inv_D(2)[OF inv]
    and uq = table_inv_D(3)[OF inv] and ss = table_inv_D(4)[OF inv]
    and s7 = table_inv_D(5)[OF inv]
  note h = holds_write_slot[OF sh b i]
  note mono = shortcut_open_write_slot[OF sh b i x]
  have new: "x = get_tag cfg k \<and> fst p = k \<Longrightarrow> x = get_tag cfg (fst p)" for k by simp
  have uq': "c = c' \<and> j = j'"
    if c: "c = first_bucket t k \<or> c = second_bucket t k"
      "c' = first_bucket t k \<or> c' = second_bucket t k"
      and j: "j < bucket_size cfg" "j' < bucket_size cfg"
      and hh: "holds cfg ?t' c j k" "holds cfg ?t' c' j' k" for c c' j j' k
  proof (cases "c = b \<and> j = i")
    case True
    note c1 = True
    show ?thesis
    proof (cases "c' = b \<and> j' = i")
      case True
      with c1 show ?thesis by simp
    next
      case False
      with hh(2) have o: "holds cfg t c' j' k" by (simp add: h)
      from c1 hh(1) have k: "x = get_tag cfg k" "fst p = k" by (simp_all add: h)
      from alone[of c' j'] k c(2) j(2) o have "c' = b \<and> j' = i" by simp
      with False show ?thesis by simp
    qed
  next
    case False
    note c1 = False
    with hh(1) have o1: "holds cfg t c j k" by (simp add: h)
    show ?thesis
    proof (cases "c' = b \<and> j' = i")
      case True
      from True hh(2) have k: "x = get_tag cfg k" "fst p = k" by (simp_all add: h)
      from alone[of c j] k c(1) j(1) o1 have "c = b \<and> j = i" by simp
      with c1 show ?thesis by simp
    next
      case False
      with hh(2) have "holds cfg t c' j' k" by (simp add: h)
      with o1 show ?thesis using uq[OF c j] by blast
    qed
  qed
  have ss': "\<not> shortcut_open cfg ?t' k"
    if j: "j < bucket_size cfg" and hh: "holds cfg ?t' (second_bucket t k) j k"
      and ne: "second_bucket t k \<noteq> first_bucket t k" for j k
  proof (cases "second_bucket t k = b \<and> j = i")
    case True
    with hh have k: "x = get_tag cfg k" "fst p = k" by (simp_all add: h)
    from second k True ne have "\<not> shortcut_open cfg t k" by simp
    with mono show ?thesis by blast
  next
    case False
    with hh have "holds cfg t (second_bucket t k) j k" by (simp add: h)
    from ss[OF j this ne] mono show ?thesis by blast
  qed
  have s7': "metadata ?t' ! c ! j = get_tag cfg (fst (buckets ?t' ! c ! j))
            \<or> fst (buckets ?t' ! c ! j) = defaultKey cfg
            \<or> fst (buckets ?t' ! c ! j) = tombstoneKey cfg"
    if "c < unat (n_buckets t)" "j < bucket_size cfg" for c j
    unfolding tag_write_slot[OF sh b i] pair_write_slot[OF sh b i]
    using key s7[OF that] by simp
  show ?thesis
  proof (rule table_inv_I)
    show "shape cfg ?t'" using sh by simp
    show "locks_free ?t'" using lf by simp
  next
    fix c c' j j' k
    assume "c = first_bucket ?t' k \<or> c = second_bucket ?t' k"
      "c' = first_bucket ?t' k \<or> c' = second_bucket ?t' k"
      "j < bucket_size cfg" "j' < bucket_size cfg" "holds cfg ?t' c j k" "holds cfg ?t' c' j' k"
    then show "c = c' \<and> j = j'" using uq'[of c k c' j j'] by simp
  next
    fix j k
    assume "j < bucket_size cfg" "holds cfg ?t' (second_bucket ?t' k) j k"
      "second_bucket ?t' k \<noteq> first_bucket ?t' k"
    then show "\<not> shortcut_open cfg ?t' k" using ss'[of j k] by simp
  next
    fix c j assume "c < unat (n_buckets ?t')" "j < bucket_size cfg"
    then show "metadata ?t' ! c ! j = get_tag cfg (fst (buckets ?t' ! c ! j))
            \<or> fst (buckets ?t' ! c ! j) = defaultKey cfg
            \<or> fst (buckets ?t' ! c ! j) = tombstoneKey cfg" using s7'[of c j] by simp
  qed
qed

lemma unat_div_succ:
  fixes x :: "64 word"
  assumes "2 \<le> d" "d \<le> 64"
  shows "unat (x div of_nat d + 1) = unat x div d + 1"
proof -
  have d: "unat (of_nat d :: 64 word) = d"
    using assms by (simp add: unat_of_nat)
  have a: "unat (x div of_nat d) = unat x div d"
    by (simp add: unat_div d)
  have "unat x < 2 ^ 64" using unsigned_less[of x, where 'a = nat] by simp
  moreover have "unat x div d \<le> unat x div 2"
    using assms(1) by (simp add: div_le_mono2)
  ultimately have lt: "unat x div d + 1 < 2 ^ 64" by simp
  have "unat (x div of_nat d + 1) = (unat (x div of_nat d) + unat (1 :: 64 word)) mod 2 ^ 64"
    by (simp only: unat_word_ariths(1)) simp
  also have "\<dots> = unat x div d + 1" using lt by (simp only: a unat_1 mod_less)
  finally show ?thesis .
qed

lemma n_buckets_generated:
  assumes wf: "wf_config cfg"
  shows "unat (ext_n_buckets cfg c) = unat (c - 1) div bucket_size cfg + 1"
proof -
  from wf have "8 dvd bucket_size cfg" "0 < bucket_size cfg" "bucket_size cfg \<le> 32"
    by (simp_all add: wf_config_def)
  then have "2 \<le> bucket_size cfg" "bucket_size cfg \<le> 64" by (auto elim!: dvdE)
  then show ?thesis unfolding ext_n_buckets_def by (rule unat_div_succ)
qed

lemma holds_generated:
  assumes "b < unat (ext_n_buckets cfg c)" "i < bucket_size cfg"
  shows "\<not> holds cfg (generate_on_device cfg c s) b i k"
  using assms get_tag_not_reserved[of cfg k]
  by (auto simp: holds_def generate_on_device_def Let_def metadata_init_def)

lemma table_inv_generated:
  assumes wf: "wf_config cfg"
  shows "table_inv cfg (generate_on_device cfg c s)"
proof (rule table_inv_I)
  let ?t = "generate_on_device cfg c s"
  let ?n = "ext_n_buckets cfg c"
  note n = n_buckets_generated[OF wf, of c]
  have nz: "?n \<noteq> 0" using n by (auto simp: unat_eq_0[symmetric] simp del: unat_eq_0)
  show sh: "shape cfg ?t"
    using nz by (simp add: shape_def generate_on_device_def Let_def list_all_iff
        metadata_init_def bucket_init_def)
  have "unat ((?n - 1) div 64 + 1) = unat (?n - 1) div 64 + 1"
    using unat_div_succ[of 64 "?n - 1"] by simp
  moreover have "unat (?n - 1) = unat ?n - 1" using nz by (simp add: unat_minus_one)
  ultimately have len: "length (locks ?t) = (unat ?n - 1) div 64 + 1"
    by (simp add: generate_on_device_def Let_def)
  have "b div 64 < length (locks ?t)" if "b < unat (n_buckets ?t)" for b
  proof -
    have "b \<le> unat ?n - 1" using that by (simp add: generate_on_device_def Let_def)
    then have "b div 64 \<le> (unat ?n - 1) div 64" by (rule div_le_mono)
    then show ?thesis using len by simp
  qed
  moreover have "list_all (\<lambda>w. w = 0) (locks ?t)"
    by (simp add: generate_on_device_def Let_def list_all_iff)
  ultimately show "locks_free ?t" by (simp add: locks_free_def list_all_iff)
  have nb: "unat (n_buckets ?t) = unat ?n" by (simp add: generate_on_device_def Let_def)
  note fb = first_bucket_less[OF sh] and sb = second_bucket_less[OF sh]
  {
    fix c' c'' j j' k
    assume "c' = first_bucket ?t k \<or> c' = second_bucket ?t k" "j < bucket_size cfg"
      "holds cfg ?t c' j k"
    then show "c' = c'' \<and> j = j'"
      using holds_generated[of c' cfg c j s k] fb[of k] sb[of k] nb by auto
  }
  {
    fix j k
    assume "j < bucket_size cfg" "holds cfg ?t (second_bucket ?t k) j k"
    then show "\<not> shortcut_open cfg ?t k"
      using holds_generated[of "second_bucket ?t k" cfg c j s k] sb[of k] nb by auto
  }
  {
    fix c' j assume "c' < unat (n_buckets ?t)" "j < bucket_size cfg"
    then show "metadata ?t ! c' ! j = get_tag cfg (fst (buckets ?t ! c' ! j))
            \<or> fst (buckets ?t ! c' ! j) = defaultKey cfg
            \<or> fst (buckets ?t ! c' ! j) = tombstoneKey cfg"
      by (simp add: generate_on_device_def Let_def bucket_init_def)
  }
qed

lemma table_inv_upsert_hit:
  assumes wf: "wf_config cfg" and inv: "table_inv cfg t"
    and b: "b = first_bucket t k \<or> b = second_bucket t k" and i: "i < bucket_size cfg"
    and h: "holds cfg t b i k"
  shows "table_inv cfg (write_slot t b i (get_tag cfg k) (k, v))"
proof (rule table_inv_write_slot[OF inv _ i])
  note sh = table_inv_D(1)[OF inv]
  show "b < unat (n_buckets t)"
    using b first_bucket_less[OF sh, of k] second_bucket_less[OF sh, of k] by auto
  show "get_tag cfg k \<noteq> get_empty_tag cfg" using get_tag_not_reserved[of cfg k] by simp
  show "get_tag cfg k = get_tag cfg (fst (k, v)) \<or> fst (k, v) = defaultKey cfg
        \<or> fst (k, v) = tombstoneKey cfg" by simp
next
  fix b' i'
  assume "b' = first_bucket t (fst (k, v)) \<or> b' = second_bucket t (fst (k, v))"
    "i' < bucket_size cfg" "holds cfg t b' i' (fst (k, v))"
  then show "b' = b \<and> i' = i" using table_inv_D(3)[OF inv, of b' k b i' i] b i h by simp
next
  assume "b = second_bucket t (fst (k, v))"
    "second_bucket t (fst (k, v)) \<noteq> first_bucket t (fst (k, v))"
  then show "\<not> shortcut_open cfg t (fst (k, v))"
    using table_inv_D(4)[OF inv, of i k] i h by simp
qed

lemma table_inv_upsert_claim:
  assumes wf: "wf_config cfg" and inv: "table_inv cfg t"
    and b: "b = first_bucket t k \<or> (b = second_bucket t k \<and> \<not> shortcut_open cfg t k)"
    and i: "i < bucket_size cfg"
    and a: "absent cfg t k"
  shows "table_inv cfg (write_slot t b i (get_tag cfg k) (k, v))"
proof (rule table_inv_write_slot[OF inv _ i])
  note sh = table_inv_D(1)[OF inv]
  show "b < unat (n_buckets t)"
    using b first_bucket_less[OF sh, of k] second_bucket_less[OF sh, of k] by auto
  show "get_tag cfg k \<noteq> get_empty_tag cfg" using get_tag_not_reserved[of cfg k] by simp
  show "get_tag cfg k = get_tag cfg (fst (k, v)) \<or> fst (k, v) = defaultKey cfg
        \<or> fst (k, v) = tombstoneKey cfg" by simp
next
  fix b' i'
  assume "b' = first_bucket t (fst (k, v)) \<or> b' = second_bucket t (fst (k, v))"
    "i' < bucket_size cfg" "holds cfg t b' i' (fst (k, v))"
  then show "b' = b \<and> i' = i" using a by (auto simp: absent_iff)
next
  assume "b = second_bucket t (fst (k, v))"
    "second_bucket t (fst (k, v)) \<noteq> first_bucket t (fst (k, v))"
  then show "\<not> shortcut_open cfg t (fst (k, v))" using b by auto
qed

lemma table_inv_erase:
  assumes wf: "wf_config cfg" and inv: "table_inv cfg t"
    and b: "b = first_bucket t k \<or> b = second_bucket t k" and i: "i < bucket_size cfg"
  shows "table_inv cfg (write_slot t b i (get_tombstone_tag cfg) (tombstoneKey cfg, w))"
proof (rule table_inv_write_slot[OF inv _ i])
  note sh = table_inv_D(1)[OF inv]
  note nr = get_tag_not_reserved[of cfg "fst (tombstoneKey cfg, w)"]
  show "b < unat (n_buckets t)"
    using b first_bucket_less[OF sh, of k] second_bucket_less[OF sh, of k] by auto
  show "get_tombstone_tag cfg \<noteq> get_empty_tag cfg" using wf by (auto simp: wf_config_def)
  show "get_tombstone_tag cfg = get_tag cfg (fst (tombstoneKey cfg, w))
        \<or> fst (tombstoneKey cfg, w) = defaultKey cfg
        \<or> fst (tombstoneKey cfg, w) = tombstoneKey cfg" by simp
  show "b' = b \<and> i' = i"
    if "get_tombstone_tag cfg = get_tag cfg (fst (tombstoneKey cfg, w))" for b' i'
    using that nr by simp
  show "\<not> shortcut_open cfg t (fst (tombstoneKey cfg, w))"
    if "get_tombstone_tag cfg = get_tag cfg (fst (tombstoneKey cfg, w))"
    using that nr by simp
qed

lemma upsert_replace_inv_cases:
  assumes wf: "wf_config cfg" and inv: "table_inv cfg t"
  shows "(\<exists>b i. (b = first_bucket t k \<or> b = second_bucket t k) \<and> i < bucket_size cfg
            \<and> holds cfg t b i k
            \<and> upsert_replace cfg t k v = Some (True, write_slot t b i (get_tag cfg k) (k, v)))
       \<or> (absent cfg t k
           \<and> (\<exists>b i. (b = first_bucket t k \<or> (b = second_bucket t k \<and> \<not> shortcut_open cfg t k))
                \<and> i < bucket_size cfg \<and> \<not> live_tag cfg (metadata t ! b ! i)
                \<and> upsert_replace cfg t k v = Some (True, write_slot t b i (get_tag cfg k) (k, v))))
       \<or> (\<not> shortcut_open cfg t k \<and> bucket_full cfg t (first_bucket t k)
           \<and> bucket_full cfg t (second_bucket t k)
           \<and> upsert_replace cfg t k v = Some (False, t))"
proof (rule upsert_replace_cases[OF wf table_inv_D(1)[OF inv] table_inv_D(2)[OF inv]])
  show "\<forall>i<bucket_size cfg. holds cfg t (second_bucket t k) i k
               \<and> second_bucket t k \<noteq> first_bucket t k \<longrightarrow> \<not> shortcut_open cfg t k"
    using table_inv_D(4)[OF inv, of _ k] by blast
qed

lemma table_inv_upsert_replace:
  assumes wf: "wf_config cfg" and inv: "table_inv cfg t"
    and u: "upsert_replace cfg t k v = Some (r, t')"
  shows "table_inv cfg t'"
proof -
  from upsert_replace_inv_cases[OF wf inv, of k v]
  consider (hit) b i where "b = first_bucket t k \<or> b = second_bucket t k" "i < bucket_size cfg"
      "holds cfg t b i k"
      "upsert_replace cfg t k v = Some (True, write_slot t b i (get_tag cfg k) (k, v))"
    | (claim) b i where "absent cfg t k"
      "b = first_bucket t k \<or> (b = second_bucket t k \<and> \<not> shortcut_open cfg t k)"
      "i < bucket_size cfg"
      "upsert_replace cfg t k v = Some (True, write_slot t b i (get_tag cfg k) (k, v))"
    | (full) "upsert_replace cfg t k v = Some (False, t)"
    by blast
  then show ?thesis
  proof cases
    case hit
    from hit(4) u have "t' = write_slot t b i (get_tag cfg k) (k, v)" by simp
    then show ?thesis using table_inv_upsert_hit[OF wf inv hit(1-3)] by simp
  next
    case claim
    from claim(4) u have "t' = write_slot t b i (get_tag cfg k) (k, v)" by simp
    then show ?thesis using table_inv_upsert_claim[OF wf inv claim(2,3,1)] by simp
  next
    case full
    with u inv show ?thesis by simp
  qed
qed

lemma table_inv_remove_key:
  assumes wf: "wf_config cfg" and inv: "table_inv cfg t"
    and u: "remove_key cfg t k = Some (r, t')"
  shows "table_inv cfg t'"
proof -
  from remove_key_cases[OF wf table_inv_D(1)[OF inv] table_inv_D(2)[OF inv], of k]
  consider (hit) b i where "b = first_bucket t k \<or> b = second_bucket t k" "i < bucket_size cfg"
      "remove_key cfg t k = Some (True, write_slot t b i (get_tombstone_tag cfg)
                                (tombstoneKey cfg, snd (buckets t ! b ! i)))"
    | (miss) "remove_key cfg t k = Some (False, t)"
    by blast
  then show ?thesis
  proof cases
    case hit
    from hit(3) u have "t' = write_slot t b i (get_tombstone_tag cfg)
                                (tombstoneKey cfg, snd (buckets t ! b ! i))" by simp
    then show ?thesis using table_inv_erase[OF wf inv hit(1,2)] by simp
  next
    case miss
    with u inv show ?thesis by simp
  qed
qed

lemma reachable_table_inv:
  assumes wf: "wf_config cfg" and r: "reachable cfg t"
  shows "table_inv cfg t"
  using r
proof induction
  case (generated cache_capacity ext_seed)
  show ?case by (rule table_inv_generated[OF wf])
next
  case (upserted t k v r t')
  then show ?case using table_inv_upsert_replace[OF wf] by blast
next
  case (removed t k r t')
  then show ?case using table_inv_remove_key[OF wf] by blast
qed

lemma find_of_holds:
  assumes wf: "wf_config cfg" and inv: "table_inv cfg t"
    and b: "b = first_bucket t k \<or> b = second_bucket t k" and i: "i < bucket_size cfg"
    and h: "holds cfg t b i k"
  shows "fst (find_with_reference cfg t k) = Some (snd (buckets t ! b ! i))"
proof (cases "fst (find_with_reference cfg t k)")
  case None
  from find_with_reference_None[OF wf None] b i h show ?thesis by (auto simp: absent_iff)
next
  case (Some w)
  from find_with_reference_Some[OF wf Some]
  obtain b' i' where *: "b' = first_bucket t k \<or> b' = second_bucket t k" "i' < bucket_size cfg"
    "holds cfg t b' i' k" "snd (buckets t ! b' ! i') = w" by blast
  from table_inv_D(3)[OF inv *(1) b *(2) i *(3) h] *(4) Some show ?thesis by simp
qed

lemma find_of_absent:
  assumes wf: "wf_config cfg" and a: "absent cfg t k"
  shows "fst (find_with_reference cfg t k) = None"
proof (cases "fst (find_with_reference cfg t k)")
  case None
  then show ?thesis .
next
  case (Some w)
  from find_with_reference_Some[OF wf Some] a show ?thesis by (auto simp: absent_iff)
qed

lemma find_after_write:
  assumes wf: "wf_config cfg" and inv: "table_inv cfg t"
    and inv': "table_inv cfg (write_slot t b i (get_tag cfg k) (k, v))"
    and b: "b = first_bucket t k \<or> b = second_bucket t k" and i: "i < bucket_size cfg"
  shows "fst (find_with_reference cfg (write_slot t b i (get_tag cfg k) (k, v)) k) = Some v"
proof -
  let ?t' = "write_slot t b i (get_tag cfg k) (k, v)"
  note sh = table_inv_D(1)[OF inv]
  have bl: "b < unat (n_buckets t)"
    using b first_bucket_less[OF sh, of k] second_bucket_less[OF sh, of k] by auto
  have h: "holds cfg ?t' b i k" by (simp add: holds_write_slot[OF sh bl i])
  have "buckets ?t' ! b ! i = (k, v)" unfolding pair_write_slot[OF sh bl i] by simp
  then have "snd (buckets ?t' ! b ! i) = v" by simp
  moreover have "b = first_bucket ?t' k \<or> b = second_bucket ?t' k" using b by simp
  ultimately show ?thesis using find_of_holds[OF wf inv' _ i h] by simp
qed

section \<open>Consequences for the operations\<close>

subsection \<open>Sequences of operations\<close>

lemma run_reachable:
  assumes "reachable cfg t" "run cfg t ops = Some t'"
  shows "reachable cfg t'"
  using assms
proof (induction ops arbitrary: t)
  case Nil
  then show ?case by simp
next
  case (Cons op ops)
  show ?case
  proof (cases op)
    case (Upsert k v)
    with Cons.prems(2) obtain r t1 where u: "upsert_replace cfg t k v = Some (r, t1)"
      and r: "run cfg t1 ops = Some t'"
      by (auto split: option.splits)
    from reachable.upserted[OF Cons.prems(1) u] r show ?thesis by (rule Cons.IH)
  next
    case (Remove k)
    with Cons.prems(2) obtain r t1 where u: "remove_key cfg t k = Some (r, t1)"
      and r: "run cfg t1 ops = Some t'"
      by (auto split: option.splits)
    from reachable.removed[OF Cons.prems(1) u] r show ?thesis by (rule Cons.IH)
  qed
qed

subsection \<open>What an operation that returns true has done\<close>

lemma find_with_reference_snd: "snd (find_with_reference cfg t k) = t"
  by (simp add: find_with_reference_def Let_def split: option.splits)

lemma find_with_reference_no_lock_snd: "snd (find_with_reference_no_lock cfg t k) = t"
  by (simp add: find_with_reference_no_lock_def Let_def split: option.splits)

lemma find_with_reference_locks:
  "fst (find_with_reference cfg (t\<lparr>locks := l\<rparr>) k) = fst (find_with_reference cfg t k)"
  by (simp add: find_with_reference_def Let_def hash_key_def get_first_bucket_def
      get_second_bucket_def split: option.splits)

lemma upsert_replace_written:
  assumes wf: "wf_config cfg" and inv: "table_inv cfg t"
    and u: "upsert_replace cfg t k v = Some (True, t')"
  obtains b i where "b = first_bucket t k \<or> b = second_bucket t k" "i < bucket_size cfg"
    "t' = write_slot t b i (get_tag cfg k) (k, v)"
    "holds cfg t b i k \<or> (absent cfg t k \<and> \<not> live_tag cfg (metadata t ! b ! i))"
proof -
  from upsert_replace_inv_cases[OF wf inv, of k v]
  consider (hit) b i where "b = first_bucket t k \<or> b = second_bucket t k" "i < bucket_size cfg"
      "holds cfg t b i k"
      "upsert_replace cfg t k v = Some (True, write_slot t b i (get_tag cfg k) (k, v))"
    | (claim) b i where "absent cfg t k"
      "b = first_bucket t k \<or> (b = second_bucket t k \<and> \<not> shortcut_open cfg t k)"
      "i < bucket_size cfg" "\<not> live_tag cfg (metadata t ! b ! i)"
      "upsert_replace cfg t k v = Some (True, write_slot t b i (get_tag cfg k) (k, v))"
    | (full) "upsert_replace cfg t k v = Some (False, t)"
    by blast
  then show ?thesis
  proof cases
    case hit
    from hit(4) u have "t' = write_slot t b i (get_tag cfg k) (k, v)" by simp
    with hit(1-3) show ?thesis using that by blast
  next
    case claim
    from claim(5) u have "t' = write_slot t b i (get_tag cfg k) (k, v)" by simp
    moreover from claim(2) have "b = first_bucket t k \<or> b = second_bucket t k" by blast
    ultimately show ?thesis using claim(1,3,4) that by blast
  next
    case full
    with u show ?thesis by simp
  qed
qed

lemma find_after_upsert:
  assumes wf: "wf_config cfg" and inv: "table_inv cfg t"
    and u: "upsert_replace cfg t k v = Some (True, t')"
  shows "find_with_reference cfg t' k = (Some v, t')"
proof -
  from upsert_replace_written[OF wf inv u]
  obtain b i where b: "b = first_bucket t k \<or> b = second_bucket t k" and i: "i < bucket_size cfg"
    and t': "t' = write_slot t b i (get_tag cfg k) (k, v)" by blast
  have inv': "table_inv cfg (write_slot t b i (get_tag cfg k) (k, v))"
    using table_inv_upsert_replace[OF wf inv u] t' by simp
  have "fst (find_with_reference cfg t' k) = Some v"
    unfolding t' by (rule find_after_write[OF wf inv inv' b i])
  then show ?thesis using find_with_reference_snd[of cfg t' k]
    by (cases "find_with_reference cfg t' k") simp
qed

lemma upsert_replace_succeeds:
  assumes wf: "wf_config cfg" and inv: "table_inv cfg t"
    and b: "b = first_bucket t k \<or> b = second_bucket t k" and i: "i < bucket_size cfg"
    and free: "\<not> live_tag cfg (metadata t ! b ! i)"
  shows "\<exists>t'. upsert_replace cfg t k v = Some (True, t')"
proof -
  note sh = table_inv_D(1)[OF inv]
  have "\<not> (bucket_full cfg t (first_bucket t k) \<and> bucket_full cfg t (second_bucket t k))"
    using b i free bucket_full_nth[OF sh first_bucket_less[OF sh, of k]]
      bucket_full_nth[OF sh second_bucket_less[OF sh, of k]] by blast
  with upsert_replace_inv_cases[OF wf inv, of k v] show ?thesis by blast
qed

lemma remove_key_erased:
  assumes wf: "wf_config cfg" and inv: "table_inv cfg t"
    and u: "remove_key cfg t k = Some (True, t')"
  obtains b i where "b = first_bucket t k \<or> b = second_bucket t k" "i < bucket_size cfg"
    "holds cfg t b i k"
    "t' = write_slot t b i (get_tombstone_tag cfg) (tombstoneKey cfg, snd (buckets t ! b ! i))"
    "absent cfg t' k" "metadata t' ! b ! i = get_tombstone_tag cfg"
proof -
  note sh = table_inv_D(1)[OF inv]
  from remove_key_cases[OF wf sh table_inv_D(2)[OF inv], of k] u
  obtain b i where b: "b = first_bucket t k \<or> b = second_bucket t k" and i: "i < bucket_size cfg"
    and h: "holds cfg t b i k"
    and t': "t' = write_slot t b i (get_tombstone_tag cfg)
                    (tombstoneKey cfg, snd (buckets t ! b ! i))"
    by auto
  have bl: "b < unat (n_buckets t)"
    using b first_bucket_less[OF sh, of k] second_bucket_less[OF sh, of k] by auto
  note hw = holds_write_slot[OF sh bl i]
  note nr = get_tag_not_reserved[of cfg k]
  have gone: "\<not> holds cfg t' c j k"
    if c: "c = first_bucket t k \<or> c = second_bucket t k" and j: "j < bucket_size cfg" for c j
  proof (cases "c = b \<and> j = i")
    case True
    then show ?thesis unfolding t' hw using nr by auto
  next
    case False
    then have "holds cfg t' c j k = holds cfg t c j k" unfolding t' hw by auto
    moreover have "\<not> holds cfg t c j k"
      using table_inv_D(3)[OF inv c b j i _ h] False by blast
    ultimately show ?thesis by simp
  qed
  have a: "absent cfg t' k"
    unfolding absent_iff using gone by (simp add: t')
  have "metadata t' ! b ! i = get_tombstone_tag cfg"
    unfolding t' tag_write_slot[OF sh bl i] by simp
  with b i h t' a show ?thesis using that by blast
qed

lemma remove_key_present:
  assumes wf: "wf_config cfg" and inv: "table_inv cfg t"
    and b: "b = first_bucket t k \<or> b = second_bucket t k" and i: "i < bucket_size cfg"
    and h: "holds cfg t b i k"
  shows "\<exists>t'. remove_key cfg t k = Some (True, t')"
proof -
  have "\<not> absent cfg t k" using b i h by (auto simp: absent_iff)
  with remove_key_cases[OF wf table_inv_D(1)[OF inv] table_inv_D(2)[OF inv], of k]
  show ?thesis by blast
qed

lemma length_le_one:
  assumes "distinct xs" "\<And>x y. x \<in> set xs \<Longrightarrow> y \<in> set xs \<Longrightarrow> x = y"
  shows "length xs \<le> 1"
proof (cases xs)
  case Nil
  then show ?thesis by simp
next
  case (Cons x ys)
  show ?thesis
  proof (cases ys)
    case Nil
    with Cons show ?thesis by simp
  next
    case (Cons y zs)
    with \<open>xs = x # ys\<close> assms(1) have "x \<noteq> y" by simp
    moreover have "x = y" using assms(2)[of x y] Cons \<open>xs = x # ys\<close> by simp
    ultimately show ?thesis by simp
  qed
qed

lemma candidate_slots_iff:
  "(b, i) \<in> set (candidate_slots cfg t k)
   \<longleftrightarrow> (b = first_bucket t k \<or> b = second_bucket t k) \<and> i < bucket_size cfg"
  unfolding candidate_slots_def set_product set_remdups by auto

lemma live_slots_holding_iff:
  "(b, i) \<in> set (live_slots_holding cfg t k)
   \<longleftrightarrow> (b = first_bucket t k \<or> b = second_bucket t k) \<and> i < bucket_size cfg
       \<and> live_key cfg k \<and> fst (buckets t ! b ! i) = k"
  unfolding live_slots_holding_def set_filter mem_Collect_eq candidate_slots_iff prod.case
  by auto

lemma live_slots_holding_unique:
  assumes wf: "wf_config cfg" and inv: "table_inv cfg t"
  shows "length (live_slots_holding cfg t k) \<le> 1"
proof (rule length_le_one)
  have "distinct (candidate_slots cfg t k)"
    unfolding candidate_slots_def by (rule distinct_product) simp_all
  then show "distinct (live_slots_holding cfg t k)"
    unfolding live_slots_holding_def by (rule distinct_filter)
next
  note sh = table_inv_D(1)[OF inv]
  have h: "holds cfg t b i k"
    if "(b, i) \<in> set (live_slots_holding cfg t k)" for b i
  proof -
    from that have b: "b = first_bucket t k \<or> b = second_bucket t k" and i: "i < bucket_size cfg"
      and k: "fst (buckets t ! b ! i) = k" "k \<noteq> defaultKey cfg" "k \<noteq> tombstoneKey cfg"
      by (simp_all add: live_slots_holding_iff live_key_def)
    have bl: "b < unat (n_buckets t)"
      using b first_bucket_less[OF sh, of k] second_bucket_less[OF sh, of k] by auto
    from table_inv_D(5)[OF inv bl i] k show ?thesis by (simp add: holds_def)
  qed
  fix x y
  assume x: "x \<in> set (live_slots_holding cfg t k)" and y: "y \<in> set (live_slots_holding cfg t k)"
  obtain b i where xe: "x = (b, i)" by (cases x)
  obtain b' i' where ye: "y = (b', i')" by (cases y)
  from x xe have b: "b = first_bucket t k \<or> b = second_bucket t k" and i: "i < bucket_size cfg"
    by (simp_all add: live_slots_holding_iff)
  from y ye have b': "b' = first_bucket t k \<or> b' = second_bucket t k"
    and i': "i' < bucket_size cfg"
    by (simp_all add: live_slots_holding_iff)
  from table_inv_D(3)[OF inv b b' i i' h h] x y xe ye show "x = y" by simp
qed

lemma upsert_replace_internal_gate:
  assumes wf: "wf_config cfg" and sh: "shape cfg t" and b: "bucket_0 < unat (n_buckets t)"
  shows "upsert_replace_internal cfg t k v key_hash bucket_0 =
     (if 4 * occupied_tags cfg (metadata t ! bucket_0) < 3 * bucket_size cfg
      then Some (True, snd (shortcut_attempt cfg t bucket_0 k v
                              (load_fill_ballots_huge cfg (metadata t ! bucket_0) k)))
      else alternate_loop cfg bucket_0 (get_second_bucket t key_hash) k v
             (t, load_fill_ballots_huge cfg (metadata t ! bucket_0) k,
                 load_fill_ballots_huge cfg (metadata t ! get_second_bucket t key_hash) k))"
proof -
  obtain e tm mm where eq: "load_fill_ballots_huge cfg (metadata t ! bucket_0) k = (e, tm, mm)"
    by (cases "load_fill_ballots_huge cfg (metadata t ! bucket_0) k") auto
  show ?thesis
    unfolding upsert_replace_internal_def eq shortcut_loop_eq(1)[OF wf sh b eq]
    by (simp add: Let_def)
qed

section \<open>The memory accesses of a query\<close>

lemma lanes_do_loads:
  assumes "\<And>rank c. \<exists>c'. step rank (t, c) = (g rank, (t, c')) \<and> (quiet \<longrightarrow> c' = c)"
  shows "\<exists>c'. lanes_do step ranks (t, c) = (map g ranks, (t, c')) \<and> (quiet \<longrightarrow> c' = c)"
proof (induction ranks arbitrary: c)
  case Nil
  show ?case by simp
next
  case (Cons rank ranks)
  from assms[of rank c] obtain c1 where
    a: "step rank (t, c) = (g rank, (t, c1))" and q1: "quiet \<longrightarrow> c1 = c" by blast
  from Cons[of c1] obtain c2 where
    b: "lanes_do step ranks (t, c1) = (map g ranks, (t, c2))" and q2: "quiet \<longrightarrow> c2 = c1" by blast
  from a b q1 q2 show ?case by simp
qed

lemma round_loop_loads:
  assumes "\<And>offset c. \<exists>c'. body offset (t, c) = (h offset, (t, c')) \<and> (quiet \<longrightarrow> c' = c)"
  shows "\<exists>c'. round_loop offs body (t, c)
               = (fst (round_loop offs (\<lambda>offset u. (h offset, u)) ()), (t, c'))
             \<and> (quiet \<longrightarrow> c' = c)"
proof (induction offs arbitrary: c)
  case Nil
  show ?case by simp
next
  case (Cons offset offs)
  from assms[of offset c] obtain c1 where
    a: "body offset (t, c) = (h offset, (t, c1))" and q1: "quiet \<longrightarrow> c1 = c" by blast
  show ?case
  proof (cases "h offset")
    case None
    from Cons[of c1] obtain c2 where
      b: "round_loop offs body (t, c1)
          = (fst (round_loop offs (\<lambda>offset u. (h offset, u)) ()), (t, c2))"
      and q2: "quiet \<longrightarrow> c2 = c1" by blast
    from a b q1 q2 None show ?thesis by simp
  next
    case (Some r)
    with a q1 show ?thesis by simp
  qed
qed

lemma report_loads: "\<exists>c'. report hook (t, c) = (t, c') \<and> (hook = (\<lambda>count. count) \<longrightarrow> c' = c)"
  by (simp add: report_def)

lemma lane_load_loads:
  "\<exists>c'. lane_load cfg bucket offset rank (t, c)
         = (if offset + rank < huge_limit cfg \<and> valid_to_load cfg (offset + rank)
            then load_multi_tags (metadata t ! bucket) ((offset + rank) * 8) else [], (t, c'))
        \<and> (quiet \<longrightarrow> c' = c)"
  by (simp add: lane_load_def load_multi_tags_dev_def Let_def)

lemma lane_found_loads:
  "\<exists>c'. lane_found ins cfg bucket k loaded offset j rank (t, c)
         = (if offset + rank < huge_limit cfg \<and> valid_to_load cfg (offset + rank)
               \<and> loaded ! rank ! j = get_tag cfg k
               \<and> fst (buckets t ! bucket ! ((offset + rank) * 8 + j)) = k
            then Some (snd (buckets t ! bucket ! ((offset + rank) * 8 + j))) else None, (t, c'))
        \<and> (silent ins \<longrightarrow> c' = c)"
  by (simp add: lane_found_def ht_load_packed_pair_def report_def Let_def silent_def)

lemma ballot_cong:
  assumes "\<And>rank. rank < partition_size cfg \<Longrightarrow> p rank = q rank"
  shows "ballot cfg p = ballot cfg q"
  unfolding ballot_def using assms by (intro filter_cong) auto

lemma ballot_head_less:
  assumes "ballot cfg p = leader # rest"
  shows "leader < partition_size cfg" "p leader"
proof -
  have "leader \<in> set (ballot cfg p)" using assms by simp
  then show "leader < partition_size cfg" "p leader" by (auto simp: ballot_def)
qed

lemma query_md_and_bucket_large_dev_loads:
  "\<exists>c'. query_md_and_bucket_large_dev ins cfg bucket k (t, c)
         = (query_md_and_bucket_large cfg (metadata t ! bucket) k (buckets t ! bucket), (t, c'))
        \<and> (silent ins \<longrightarrow> c' = c)"
proof -
  let ?md = "metadata t ! bucket" and ?slots = "buckets t ! bucket"
  let ?ok = "\<lambda>i. i < huge_limit cfg \<and> valid_to_load cfg i"
  let ?pred = "\<lambda>offset j rank. offset + rank < huge_limit cfg
                 \<and> valid_to_load cfg (offset + rank)
                 \<and> load_multi_tags ?md ((offset + rank) * 8) ! j = get_tag cfg k
                 \<and> fst (?slots ! ((offset + rank) * 8 + j)) = k"
  let ?hj = "\<lambda>offset j. case ballot cfg (?pred offset j) of
                 [] \<Rightarrow> None
               | leader # _ \<Rightarrow> Some (snd (?slots ! ((offset + leader) * 8 + j)))"
  let ?h = "\<lambda>offset. fst (round_loop [0..<8] (\<lambda>j u. (?hj offset j, u)) ())"
  have inner: "\<exists>c'. (case lanes_do (lane_found ins cfg bucket k loaded offset j)
                          [0..<partition_size cfg] (t, c) of
                     (vals, d') \<Rightarrow>
                       (case ballot cfg (\<lambda>rank. vals ! rank \<noteq> None) of
                          [] \<Rightarrow> (None, d')
                        | leader # _ \<Rightarrow> (vals ! leader, d')))
                   = (?hj offset j, (t, c')) \<and> (silent ins \<longrightarrow> c' = c)"
    if loaded: "loaded = map (\<lambda>rank. if ?ok (offset + rank)
                                then load_multi_tags ?md ((offset + rank) * 8) else [])
                           [0..<partition_size cfg]"
    for loaded offset j c
  proof -
    let ?g = "\<lambda>rank. if offset + rank < huge_limit cfg \<and> valid_to_load cfg (offset + rank)
                       \<and> loaded ! rank ! j = get_tag cfg k
                       \<and> fst (?slots ! ((offset + rank) * 8 + j)) = k
                    then Some (snd (?slots ! ((offset + rank) * 8 + j))) else None"
    from lanes_do_loads[where step = "lane_found ins cfg bucket k loaded offset j"
        and g = ?g and quiet = "silent ins" and t = t, OF lane_found_loads]
    obtain c' where l: "lanes_do (lane_found ins cfg bucket k loaded offset j)
                          [0..<partition_size cfg] (t, c)
                        = (map ?g [0..<partition_size cfg], (t, c'))"
      and q: "silent ins \<longrightarrow> c' = c" by blast
    have ld: "loaded ! rank = (if ?ok (offset + rank)
                                then load_multi_tags ?md ((offset + rank) * 8) else [])"
      if "rank < partition_size cfg" for rank
      using that by (simp add: loaded)
    have g: "(map ?g [0..<partition_size cfg] ! rank \<noteq> None) = ?pred offset j rank"
      if "rank < partition_size cfg" for rank
      using that ld[OF that] by auto
    have bal: "ballot cfg (\<lambda>rank. map ?g [0..<partition_size cfg] ! rank \<noteq> None)
               = ballot cfg (?pred offset j)"
      by (rule ballot_cong) (rule g)
    have fin: "(case ballot cfg (?pred offset j) of
             [] \<Rightarrow> (None, (t, c'))
           | leader # _ \<Rightarrow> (map ?g [0..<partition_size cfg] ! leader, (t, c')))
          = (?hj offset j, (t, c'))"
    proof (cases "ballot cfg (?pred offset j)")
      case Nil
      then show ?thesis by simp
    next
      case (Cons leader rest)
      note hd = ballot_head_less[OF Cons]
      from hd(2) ld[OF hd(1)] hd(1)
      have "map ?g [0..<partition_size cfg] ! leader
            = Some (snd (?slots ! ((offset + leader) * 8 + j)))" by simp
      with Cons show ?thesis by simp
    qed
    show ?thesis unfolding l prod.case bal fin using q by blast
  qed
  have round: "\<exists>c'. (case lanes_do (lane_load cfg bucket offset) [0..<partition_size cfg] (t, c) of
            (loaded, d1) \<Rightarrow>
              round_loop [0..<8]
                (\<lambda>j d.
                   case lanes_do (lane_found ins cfg bucket k loaded offset j)
                          [0..<partition_size cfg] d of
                     (vals, d') \<Rightarrow>
                       (case ballot cfg (\<lambda>rank. vals ! rank \<noteq> None) of
                          [] \<Rightarrow> (None, d')
                        | leader # _ \<Rightarrow> (vals ! leader, d')))
                d1)
          = (?h offset, (t, c')) \<and> (silent ins \<longrightarrow> c' = c)" for offset c
  proof -
    let ?loaded = "map (\<lambda>rank. if ?ok (offset + rank)
                                then load_multi_tags ?md ((offset + rank) * 8) else [])
                           [0..<partition_size cfg]"
    from lanes_do_loads[where step = "lane_load cfg bucket offset" and quiet = "silent ins"
        and t = t, OF lane_load_loads]
    obtain c1 where l: "lanes_do (lane_load cfg bucket offset) [0..<partition_size cfg] (t, c)
                        = (?loaded, (t, c1))"
      and q1: "silent ins \<longrightarrow> c1 = c" by blast
    from round_loop_loads[where quiet = "silent ins" and t = t and h = "?hj offset"
        and body = "\<lambda>j d.
                   case lanes_do (lane_found ins cfg bucket k ?loaded offset j)
                          [0..<partition_size cfg] d of
                     (vals, d') \<Rightarrow>
                       (case ballot cfg (\<lambda>rank. vals ! rank \<noteq> None) of
                          [] \<Rightarrow> (None, d')
                        | leader # _ \<Rightarrow> (vals ! leader, d'))", OF inner[OF refl]]
    obtain c2 where r: "round_loop [0..<8] (\<lambda>j d.
                   case lanes_do (lane_found ins cfg bucket k ?loaded offset j)
                          [0..<partition_size cfg] d of
                     (vals, d') \<Rightarrow>
                       (case ballot cfg (\<lambda>rank. vals ! rank \<noteq> None) of
                          [] \<Rightarrow> (None, d')
                        | leader # _ \<Rightarrow> (vals ! leader, d'))) (t, c1)
                  = (?h offset, (t, c2))"
      and q2: "silent ins \<longrightarrow> c2 = c1" by blast
    show ?thesis unfolding l prod.case r using q1 q2 by blast
  qed
  obtain c0 where c0: "report (ADD_PROBE_TILE ins) (t, c) = (t, c0)"
    and q0: "silent ins \<longrightarrow> c0 = c"
    by (auto simp: report_def silent_def)
  from round_loop_loads[where quiet = "silent ins" and t = t and h = ?h
      and offs = "lane_rounds cfg (huge_limit cfg)" and c = c0, OF round]
  obtain c' where
    r: "query_md_and_bucket_large_dev ins cfg bucket k (t, c)
        = (fst (round_loop (lane_rounds cfg (huge_limit cfg)) (\<lambda>offset u. (?h offset, u)) ()),
           (t, c'))"
    and q: "silent ins \<longrightarrow> c' = c0"
    unfolding query_md_and_bucket_large_dev_def c0 by blast
  have pure: "query_md_and_bucket_large cfg ?md k ?slots
        = fst (round_loop (lane_rounds cfg (huge_limit cfg)) (\<lambda>offset u. (?h offset, u)) ())"
  proof -
    have a: "(case xs of [] \<Rightarrow> (None, u) | leader # x \<Rightarrow> (Some (f leader), u))
             = (case xs of [] \<Rightarrow> None | leader # x \<Rightarrow> Some (f leader), u)"
      for xs :: "nat list" and f :: "nat \<Rightarrow> val" and u :: unit
      by (cases xs) simp_all
    have b: "round_loop js body u = (fst (round_loop js body ()), u)"
      for js and body :: "nat \<Rightarrow> unit \<Rightarrow> val option \<times> unit" and u :: unit
      by (cases "round_loop js body ()") simp
    have c: "(\<lambda>offset (u :: unit). round_loop [0..<8] (\<lambda>j u. (?hj offset j, u)) u)
             = (\<lambda>offset u. (?h offset, u))"
      by (intro ext) (rule b)
    have "query_md_and_bucket_large cfg ?md k ?slots
          = fst (round_loop (lane_rounds cfg (huge_limit cfg))
                   (\<lambda>offset u. round_loop [0..<8] (\<lambda>j u. (?hj offset j, u)) u) ())"
      unfolding query_md_and_bucket_large_def Let_def a by simp
    then show ?thesis unfolding c .
  qed
  from r q q0 pure show ?thesis by auto
qed

lemma find_with_reference_dev_loads:
  "\<exists>c'. find_with_reference_dev ins cfg (t, c) k = (fst (find_with_reference cfg t k), (t, c'))
        \<and> (silent ins \<longrightarrow> c' = c)"
proof -
  let ?b0 = "get_first_bucket t (hash_key t k)" and ?b1 = "get_second_bucket t (hash_key t k)"
  from query_md_and_bucket_large_dev_loads[of ins cfg ?b0 k t c]
  obtain c1 where
    a: "query_md_and_bucket_large_dev ins cfg ?b0 k (t, c)
        = (query_md_and_bucket_large cfg (metadata t ! ?b0) k (buckets t ! ?b0), (t, c1))"
    and q1: "silent ins \<longrightarrow> c1 = c" by blast
  from query_md_and_bucket_large_dev_loads[of ins cfg ?b1 k t c1]
  obtain c2 where
    b: "query_md_and_bucket_large_dev ins cfg ?b1 k (t, c1)
        = (query_md_and_bucket_large cfg (metadata t ! ?b1) k (buckets t ! ?b1), (t, c2))"
    and q2: "silent ins \<longrightarrow> c2 = c1" by blast
  show ?thesis
  proof (cases "query_md_and_bucket_large cfg (metadata t ! ?b0) k (buckets t ! ?b0)")
    case None
    with a b q1 q2 show ?thesis
      by (simp add: find_with_reference_dev_def find_with_reference_def Let_def)
  next
    case (Some v)
    with a q1 show ?thesis
      by (simp add: find_with_reference_dev_def find_with_reference_def Let_def)
  qed
qed

lemma find_with_reference_no_lock_dev_eq:
  "find_with_reference_no_lock_dev ins cfg d k = find_with_reference_dev ins cfg d k"
  by (simp add: find_with_reference_no_lock_dev_def find_with_reference_dev_def)

lemma silent_no_instrumentation: "silent no_instrumentation"
  by (simp add: silent_def no_instrumentation_def)

section \<open>The slot that an upsert claims\<close>

lemma find_filter: "find P (filter Q xs) = find (\<lambda>x. Q x \<and> P x) xs"
  by (induction xs) simp_all

lemma find_upt_Some: "find R [0..<n] = Some l \<longleftrightarrow> l < n \<and> R l \<and> (\<forall>m<l. \<not> R m)"
  by (auto simp: find_Some_iff)

lemma find_upt_None: "find R [0..<n] = None \<longleftrightarrow> (\<forall>m<n. \<not> R m)"
  by (auto simp: find_None_iff)

lemma scan_body_first:
  "(\<exists>l. l < partition_size cfg \<and> Q (offset + l) s \<and> P (offset + l) s
         \<and> (\<forall>m<l. Q (offset + m) s \<longrightarrow> \<not> P (offset + m) s)
         \<and> scan_body cfg Q P U offset s = (Some l, U (offset + l) s))
   \<or> ((\<forall>l < partition_size cfg. Q (offset + l) s \<longrightarrow> \<not> P (offset + l) s)
       \<and> scan_body cfg Q P U offset s = (None, s))"
proof -
  let ?R = "\<lambda>l. Q (offset + l) s \<and> P (offset + l) s"
  have eq: "scan_body cfg Q P U offset s =
        (case find ?R [0..<partition_size cfg] of None \<Rightarrow> (None, s)
         | Some l \<Rightarrow> (Some l, U (offset + l) s))"
    unfolding scan_body_def ballot_def find_filter[symmetric]
    by (rule leader_loop_find) simp
  show ?thesis
  proof (cases "find ?R [0..<partition_size cfg]")
    case None
    with eq show ?thesis by (simp add: find_upt_None)
  next
    case (Some l)
    then have "l < partition_size cfg \<and> ?R l \<and> (\<forall>m<l. \<not> ?R m)"
      unfolding find_upt_Some .
    with Some eq show ?thesis by auto
  qed
qed

lemma lane_rounds_nth:
  assumes "r < length (lane_rounds cfg limit)"
  shows "lane_rounds cfg limit ! r = r * partition_size cfg"
  using assms by (simp add: lane_rounds_def)

lemma scan_first:
  fixes g :: "nat \<Rightarrow> nat \<Rightarrow> nat" and Q P :: "nat \<Rightarrow> 's \<Rightarrow> bool" and U :: "nat \<Rightarrow> 's \<Rightarrow> 's"
    and s :: 's and cfg :: config
  assumes ps: "0 < partition_size cfg"
    and Qb: "\<And>i. Q i s \<Longrightarrow> i < bucket_size cfg"
  shows "(\<exists>offset l. l < partition_size cfg \<and> Q (offset + l) s \<and> P (offset + l) s
            \<and> (\<forall>m < offset + l. Q m s \<longrightarrow> \<not> P m s)
            \<and> round_loop (lane_rounds cfg (n_traversals cfg))
                 (\<lambda>offset s. case scan_body cfg Q P U offset s of
                      (Some leader, s') \<Rightarrow> (Some (g offset leader), s')
                    | (None, s') \<Rightarrow> (None, s')) s
               = (Some (g offset l), U (offset + l) s))
         \<or> ((\<forall>i. Q i s \<longrightarrow> \<not> P i s)
            \<and> round_loop (lane_rounds cfg (n_traversals cfg))
                 (\<lambda>offset s. case scan_body cfg Q P U offset s of
                      (Some leader, s') \<Rightarrow> (Some (g offset leader), s')
                    | (None, s') \<Rightarrow> (None, s')) s
               = (None, s))"
proof -
  let ?body = "\<lambda>offset s. case scan_body cfg Q P U offset s of
                  (Some leader, s') \<Rightarrow> (Some (g offset leader), s')
                | (None, s') \<Rightarrow> (None, s')"
  let ?offs = "lane_rounds cfg (n_traversals cfg)"
  let ?res = "round_loop ?offs ?body s"
  let ?p = "partition_size cfg"
  have unchanged: "fst (?body offset s) = None \<Longrightarrow> snd (?body offset s) = s" for offset
    using scan_body_cases[of cfg Q offset s P U] by auto
  have eq: "?res = (case find (\<lambda>offset. fst (?body offset s) \<noteq> None) ?offs of
            None \<Rightarrow> (None, s) | Some offset \<Rightarrow> ?body offset s)"
    by (rule round_loop_find) (rule unchanged)
  have "(\<exists>offset l. ?res = (Some (g offset l), U (offset + l) s))
        \<or> ((\<forall>i. Q i s \<longrightarrow> \<not> P i s) \<and> ?res = (None, s))"
    using scan_cases[OF ps, where Q = Q and P = P and U = U and g = g and s = s] Qb by blast
  then show ?thesis
  proof (elim disjE exE conjE)
    assume "\<forall>i. Q i s \<longrightarrow> \<not> P i s" "?res = (None, s)"
    then show ?thesis by blast
  next
    fix offset0 l0
    assume "?res = (Some (g offset0 l0), U (offset0 + l0) s)"
    then obtain offset where f: "find (\<lambda>offset. fst (?body offset s) \<noteq> None) ?offs = Some offset"
      using eq by (cases "find (\<lambda>offset. fst (?body offset s) \<noteq> None) ?offs") auto
    then obtain r where r: "r < length ?offs" "offset = ?offs ! r"
      "fst (?body offset s) \<noteq> None"
      and before: "\<forall>j<r. fst (?body (?offs ! j) s) = None"
      by (auto simp: find_Some_iff)
    have off: "offset = r * ?p" using r(1,2) by (simp add: lane_rounds_nth)
    from r(3) scan_body_first[of cfg Q offset s P U]
    obtain l where l: "l < ?p" "Q (offset + l) s" "P (offset + l) s"
      "\<forall>m<l. Q (offset + m) s \<longrightarrow> \<not> P (offset + m) s"
      "scan_body cfg Q P U offset s = (Some l, U (offset + l) s)"
      by auto
    have first: "\<not> P m s" if m: "m < offset + l" and q: "Q m s" for m
    proof (cases "m div ?p < r")
      case True
      have nth: "?offs ! (m div ?p) = (m div ?p) * ?p"
        using True r(1) by (simp add: lane_rounds_nth)
      from True have "fst (?body (?offs ! (m div ?p)) s) = None" using before by blast
      then have "fst (?body ((m div ?p) * ?p) s) = None" unfolding nth .
      then have "\<forall>l < ?p. Q ((m div ?p) * ?p + l) s \<longrightarrow> \<not> P ((m div ?p) * ?p + l) s"
        using scan_body_cases[of cfg Q "(m div ?p) * ?p" s P U] by auto
      moreover have "m mod ?p < ?p" using ps by simp
      moreover have "(m div ?p) * ?p + m mod ?p = m" by simp
      ultimately show ?thesis using q by metis
    next
      case False
      have "m < (r + 1) * ?p" using m l(1) off by simp
      then have "m div ?p < r + 1" using ps by (simp add: less_mult_imp_div_less)
      with False have d: "m div ?p = r" by simp
      have "m = offset + m mod ?p" using d off by (metis div_mult_mod_eq)
      moreover from this m have "m mod ?p < l" by simp
      ultimately show ?thesis using l(4) q by metis
    qed
    have "?res = (Some (g offset l), U (offset + l) s)"
      using eq f l(5) by simp
    with l(1-3) first show ?thesis by blast
  qed
qed

lemma match_tombstone_first:
  assumes ps: "0 < partition_size cfg"
    and bits: "\<And>n. bit bm n \<longleftrightarrow> n < bucket_size cfg \<and> md ! n = get_tombstone_tag cfg"
  shows "match_tombstone cfg md k bm =
         (case find (\<lambda>i. md ! i = get_tombstone_tag cfg) [0..<bucket_size cfg] of
            Some i \<Rightarrow> (Some i, md[i := get_tag cfg k])
          | None \<Rightarrow> (None, md))"
proof -
  let ?Q = "\<lambda>i (s :: tag list). i < bucket_size cfg \<and> bit bm i"
  let ?P = "\<lambda>i (s :: tag list). s ! i = get_tombstone_tag cfg"
  have eq: "match_tombstone cfg md k bm =
        round_loop (lane_rounds cfg (n_traversals cfg))
             (\<lambda>offset s. case scan_body cfg ?Q ?P (\<lambda>i s. s[i := get_tag cfg k]) offset s of
                  (Some leader, s') \<Rightarrow> (Some (offset + leader), s')
                | (None, s') \<Rightarrow> (None, s')) md"
    by (simp add: match_tombstone_def scan_body_def typed_atomic_write_def Let_def)
  have "(\<exists>n. n < bucket_size cfg \<and> md ! n = get_tombstone_tag cfg
            \<and> (\<forall>m<n. md ! m \<noteq> get_tombstone_tag cfg)
            \<and> match_tombstone cfg md k bm = (Some n, md[n := get_tag cfg k]))
        \<or> ((\<forall>i<bucket_size cfg. md ! i \<noteq> get_tombstone_tag cfg)
            \<and> match_tombstone cfg md k bm = (None, md))"
    unfolding eq
    using scan_first[OF ps, where Q = ?Q and s = md and P = ?P
      and U = "\<lambda>i s. s[i := get_tag cfg k]" and g = "\<lambda>offset l. offset + l"]
    by (auto simp: bits)
  then show ?thesis
  proof (elim disjE exE conjE)
    fix n
    assume a: "n < bucket_size cfg" "md ! n = get_tombstone_tag cfg"
      "\<forall>m<n. md ! m \<noteq> get_tombstone_tag cfg"
      "match_tombstone cfg md k bm = (Some n, md[n := get_tag cfg k])"
    have "find (\<lambda>i. md ! i = get_tombstone_tag cfg) [0..<bucket_size cfg] = Some n"
      unfolding find_upt_Some using a(1-3) by simp
    with a(4) show ?thesis by simp
  next
    assume a: "\<forall>i<bucket_size cfg. md ! i \<noteq> get_tombstone_tag cfg"
      "match_tombstone cfg md k bm = (None, md)"
    have "find (\<lambda>i. md ! i = get_tombstone_tag cfg) [0..<bucket_size cfg] = None"
      unfolding find_upt_None using a(1) by simp
    with a(2) show ?thesis by simp
  qed
qed

lemma match_empty_first:
  assumes ps: "0 < partition_size cfg"
    and bits: "\<And>n. bit bm n \<longleftrightarrow> n < bucket_size cfg \<and> md ! n = get_empty_tag cfg"
  shows "match_empty cfg md k bm =
         (case find (\<lambda>i. md ! i = get_empty_tag cfg) [0..<bucket_size cfg] of
            Some i \<Rightarrow> (Some i, md[i := get_tag cfg k])
          | None \<Rightarrow> (None, md))"
proof -
  let ?Q = "\<lambda>i (s :: tag list). i < bucket_size cfg \<and> bit bm i"
  let ?P = "\<lambda>i (s :: tag list). s ! i = get_empty_tag cfg"
  have eq: "match_empty cfg md k bm =
        round_loop (lane_rounds cfg (n_traversals cfg))
             (\<lambda>offset s. case scan_body cfg ?Q ?P (\<lambda>i s. s[i := get_tag cfg k]) offset s of
                  (Some leader, s') \<Rightarrow> (Some (offset + leader), s')
                | (None, s') \<Rightarrow> (None, s')) md"
    by (simp add: match_empty_def scan_body_def typed_atomic_write_def Let_def)
  have "(\<exists>n. n < bucket_size cfg \<and> md ! n = get_empty_tag cfg
            \<and> (\<forall>m<n. md ! m \<noteq> get_empty_tag cfg)
            \<and> match_empty cfg md k bm = (Some n, md[n := get_tag cfg k]))
        \<or> ((\<forall>i<bucket_size cfg. md ! i \<noteq> get_empty_tag cfg)
            \<and> match_empty cfg md k bm = (None, md))"
    unfolding eq
    using scan_first[OF ps, where Q = ?Q and s = md and P = ?P
      and U = "\<lambda>i s. s[i := get_tag cfg k]" and g = "\<lambda>offset l. offset + l"]
    by (auto simp: bits)
  then show ?thesis
  proof (elim disjE exE conjE)
    fix n
    assume a: "n < bucket_size cfg" "md ! n = get_empty_tag cfg"
      "\<forall>m<n. md ! m \<noteq> get_empty_tag cfg"
      "match_empty cfg md k bm = (Some n, md[n := get_tag cfg k])"
    have "find (\<lambda>i. md ! i = get_empty_tag cfg) [0..<bucket_size cfg] = Some n"
      unfolding find_upt_Some using a(1-3) by simp
    with a(4) show ?thesis by simp
  next
    assume a: "\<forall>i<bucket_size cfg. md ! i \<noteq> get_empty_tag cfg"
      "match_empty cfg md k bm = (None, md)"
    have "find (\<lambda>i. md ! i = get_empty_tag cfg) [0..<bucket_size cfg] = None"
      unfolding find_upt_None using a(1) by simp
    with a(2) show ?thesis by simp
  qed
qed

lemma claimed_slot_Some:
  assumes "claimed_slot cfg md = Some i"
  shows "i < bucket_size cfg" "\<not> live_tag cfg (md ! i)"
  using assms
  by (auto simp: claimed_slot_def find_upt_Some live_tag_def split: option.splits)

lemma claimed_slot_None:
  "claimed_slot cfg md = None \<longleftrightarrow> (\<forall>i<bucket_size cfg. live_tag cfg (md ! i))"
  by (auto simp: claimed_slot_def find_upt_None find_upt_Some live_tag_def split: option.splits)

lemma claim_slot_first:
  assumes wf: "wf_config cfg" and sh: "shape cfg t" and b: "b < unat (n_buckets t)"
    and eq: "load_fill_ballots_huge cfg (metadata t ! b) k = (e, tm, mm)"
  shows "claim_slot cfg t b k v tm e =
         (case claimed_slot cfg (metadata t ! b) of
            Some i \<Rightarrow> (True, write_slot t b i (get_tag cfg k) (k, v))
          | None \<Rightarrow> (False, t))"
proof -
  note bits = load_fill_ballots_huge_bits[OF wf eq]
  have ps: "0 < partition_size cfg" using wf by (simp add: wf_config_def)
  let ?md = "metadata t ! b"
  have mt: "match_tombstone cfg ?md k tm =
         (case find (\<lambda>i. ?md ! i = get_tombstone_tag cfg) [0..<bucket_size cfg] of
            Some i \<Rightarrow> (Some i, ?md[i := get_tag cfg k])
          | None \<Rightarrow> (None, ?md))"
    by (rule match_tombstone_first[OF ps]) (simp add: bits)
  have me: "match_empty cfg ?md k e =
         (case find (\<lambda>i. ?md ! i = get_empty_tag cfg) [0..<bucket_size cfg] of
            Some i \<Rightarrow> (Some i, ?md[i := get_tag cfg k])
          | None \<Rightarrow> (None, ?md))"
    by (rule match_empty_first[OF ps]) (simp add: bits)
  show ?thesis
    by (simp add: claim_slot_def mt me claimed_slot_def claim_as_write_slot put_metadata_same
        split: option.splits)
qed

lemma selected_bucket_cases:
  "selected_bucket cfg t k = first_bucket t k \<or> selected_bucket cfg t k = second_bucket t k"
  by (simp add: selected_bucket_def)

lemma selected_bucket_less:
  assumes "shape cfg t"
  shows "selected_bucket cfg t k < unat (n_buckets t)"
  using selected_bucket_cases[of cfg t k] first_bucket_less[OF assms, of k]
    second_bucket_less[OF assms, of k] by auto

lemma selected_bucket_locks [simp]:
  "selected_bucket cfg (t\<lparr>locks := L\<rparr>) k = selected_bucket cfg t k"
  by (simp add: selected_bucket_def)

lemma selected_bucket_write_slot_other:
  "n_buckets t' = n_buckets t \<Longrightarrow> seed t' = seed t \<Longrightarrow> metadata t' = metadata t
   \<Longrightarrow> selected_bucket cfg t' k = selected_bucket cfg t k"
  by (simp add: selected_bucket_def shortcut_open_def first_bucket_def second_bucket_def
      get_first_bucket_def get_second_bucket_def hash_key_def)

lemma upsert_replace_internal_absent:
  assumes wf: "wf_config cfg" and sh: "shape cfg t" and a: "absent cfg t k"
  shows "upsert_replace_internal cfg t k v (hash_key t k) (first_bucket t k) =
         (case claimed_slot cfg (metadata t ! selected_bucket cfg t k) of
            Some i \<Rightarrow> Some (True, write_slot t (selected_bucket cfg t k) i (get_tag cfg k) (k, v))
          | None \<Rightarrow> Some (False, t))"
proof -
  let ?b0 = "first_bucket t k" and ?b1 = "second_bucket t k"
  let ?res = "upsert_replace_internal cfg t k v (hash_key t k) ?b0"
  note b0 = first_bucket_less[OF sh, of k] and b1 = second_bucket_less[OF sh, of k]
  obtain e0 tm0 mm0 where eq0: "load_fill_ballots_huge cfg (metadata t ! ?b0) k = (e0, tm0, mm0)"
    by (cases "load_fill_ballots_huge cfg (metadata t ! ?b0) k") auto
  obtain e1 tm1 mm1 where eq1: "load_fill_ballots_huge cfg (metadata t ! ?b1) k = (e1, tm1, mm1)"
    by (cases "load_fill_ballots_huge cfg (metadata t ! ?b1) k") auto
  have sb: "get_second_bucket t (hash_key t k) = ?b1" by (simp add: second_bucket_def)
  from a have n0: "\<forall>i<bucket_size cfg. \<not> holds cfg t ?b0 i k"
    and n1: "\<forall>i<bucket_size cfg. \<not> holds cfg t ?b1 i k" by (simp_all add: absent_iff)
  have u0: "update_in_place cfg t ?b0 k v mm0 = (False, t)"
    using update_in_place_cases[OF wf sh b0 eq0, of v] n0 by blast
  have u1: "update_in_place cfg t ?b1 k v mm1 = (False, t)"
    using update_in_place_cases[OF wf sh b1 eq1, of v] n1 by blast
  note c0 = claim_slot_first[OF wf sh b0 eq0, of v] and c1 = claim_slot_first[OF wf sh b1 eq1, of v]
  note gate = upsert_replace_internal_gate[OF wf sh b0, of k v "hash_key t k"]
  show ?thesis
  proof (cases "shortcut_open cfg t k")
    case True
    then have g: "4 * occupied_tags cfg (metadata t ! ?b0) < 3 * bucket_size cfg"
      by (simp add: shortcut_open_def)
    have sel: "selected_bucket cfg t k = ?b0" using True by (simp add: selected_bucket_def)
    let ?att = "shortcut_attempt cfg t ?b0 k v (e0, tm0, mm0)"
    have r: "?res = Some (True, snd ?att)" using gate g by (simp add: eq0)
    have f: "fst ?att" by (rule shortcut_loop_eq(2)[OF wf sh b0 eq0 g])
    have att: "?att = claim_slot cfg t ?b0 k v tm0 e0"
      using u0 by (simp add: shortcut_attempt_def)
    show ?thesis
    proof (cases "claimed_slot cfg (metadata t ! ?b0)")
      case None
      with f att c0 show ?thesis by simp
    next
      case (Some i)
      with att c0 r sel show ?thesis by simp
    qed
  next
    case False
    then have g: "\<not> 4 * occupied_tags cfg (metadata t ! ?b0) < 3 * bucket_size cfg"
      by (simp add: shortcut_open_def)
    note len0 = shape_lengths(1)[OF sh b0] and len1 = shape_lengths(1)[OF sh b1]
    note s0 = ballot_sizes(2)[OF wf len0 eq0] and s1 = ballot_sizes(2)[OF wf len1 eq1]
    have le: "bucket_fill cfg (e0 OR tm0) \<le> bucket_fill cfg (e1 OR tm1)
            \<longleftrightarrow> live_tags cfg (metadata t ! ?b0) \<le> live_tags cfg (metadata t ! ?b1)"
      by (simp add: word_le_nat_alt s0 s1)
    let ?att = "alternate_attempt cfg t ?b0 ?b1 k v (e0, tm0, mm0) (e1, tm1, mm1)"
    have r: "?res = alternate_loop cfg ?b0 ?b1 k v (t, (e0, tm0, mm0), (e1, tm1, mm1))"
      using gate g by (simp add: eq0 eq1 sb)
    note loop = alternate_loop_eq[OF wf sh b0 b1 eq0 eq1, of v]
    show ?thesis
    proof (cases "live_tags cfg (metadata t ! ?b0) \<le> live_tags cfg (metadata t ! ?b1)")
      case True
      then have sel: "selected_bucket cfg t k = ?b0"
        using False by (simp add: selected_bucket_def)
      have att: "?att = claim_slot cfg t ?b0 k v tm0 e0"
        using u0 u1 True le by (simp add: alternate_attempt_def)
      show ?thesis
      proof (cases "claimed_slot cfg (metadata t ! ?b0)")
        case None
        then have full0: "\<forall>i<bucket_size cfg. live_tag cfg (metadata t ! ?b0 ! i)"
          by (simp add: claimed_slot_None)
        then have "live_tags cfg (metadata t ! ?b0) = bucket_size cfg"
          by (simp add: live_tags_full[OF len0])
        moreover have "live_tags cfg (metadata t ! ?b1) \<le> bucket_size cfg"
          unfolding live_tags_def len1[symmetric] by (rule length_filter_le)
        ultimately have "live_tags cfg (metadata t ! ?b1) = bucket_size cfg" using True by simp
        then have "\<forall>i<bucket_size cfg. live_tag cfg (metadata t ! ?b1 ! i)"
          by (simp add: live_tags_full[OF len1])
        with full0 loop r None sel show ?thesis by simp
      next
        case (Some i)
        then have "\<not> live_tag cfg (metadata t ! ?b0 ! i)" "i < bucket_size cfg"
          by (simp_all add: claimed_slot_Some)
        then have "\<not> (\<forall>i<bucket_size cfg. live_tag cfg (metadata t ! ?b0 ! i))" by blast
        with loop r have "?res = Some (True, snd ?att)" by simp
        with att c0 Some sel show ?thesis by simp
      qed
    next
      case nle: False
      then have sel: "selected_bucket cfg t k = ?b1"
        using False by (simp add: selected_bucket_def)
      have att: "?att = claim_slot cfg t ?b1 k v tm1 e1"
        using u0 u1 nle le by (simp add: alternate_attempt_def)
      show ?thesis
      proof (cases "claimed_slot cfg (metadata t ! ?b1)")
        case None
        then have full1: "\<forall>i<bucket_size cfg. live_tag cfg (metadata t ! ?b1 ! i)"
          by (simp add: claimed_slot_None)
        then have "live_tags cfg (metadata t ! ?b1) = bucket_size cfg"
          by (simp add: live_tags_full[OF len1])
        moreover have "live_tags cfg (metadata t ! ?b0) \<le> bucket_size cfg"
          unfolding live_tags_def len0[symmetric] by (rule length_filter_le)
        ultimately show ?thesis using nle by simp
      next
        case (Some i)
        then have "\<not> live_tag cfg (metadata t ! ?b1 ! i)" "i < bucket_size cfg"
          by (simp_all add: claimed_slot_Some)
        then have "\<not> (\<forall>i<bucket_size cfg. live_tag cfg (metadata t ! ?b1 ! i))" by blast
        with loop r have "?res = Some (True, snd ?att)" by simp
        with att c1 Some sel show ?thesis by simp
      qed
    qed
  qed
qed

lemma upsert_replace_absent:
  assumes wf: "wf_config cfg" and sh: "shape cfg t" and lf: "locks_free t"
    and a: "absent cfg t k"
  shows "upsert_replace cfg t k v =
         (case claimed_slot cfg (metadata t ! selected_bucket cfg t k) of
            Some i \<Rightarrow> Some (True, write_slot t (selected_bucket cfg t k) i (get_tag cfg k) (k, v))
          | None \<Rightarrow> Some (False, t))"
proof -
  let ?b0 = "first_bucket t k"
  let ?L = "(locks t)[?b0 div 64 := SET_BIT_MASK (?b0 mod 64)]"
  let ?t1 = "t\<lparr>locks := ?L\<rparr>"
  note b0 = first_bucket_less[OF sh, of k]
  have lock: "stall_lock t ?b0 = Some ?t1" by (rule stall_lock_free[OF lf b0])
  have up: "upsert_replace cfg t k v =
        (case upsert_replace_internal cfg ?t1 k v (hash_key t k) ?b0 of
           None \<Rightarrow> None | Some (return_val, t2) \<Rightarrow> Some (return_val, unlock t2 ?b0))"
    unfolding upsert_replace_def Let_def first_bucket_def[symmetric] lock by simp
  have sh1: "shape cfg ?t1" using sh by simp
  have a1: "absent cfg ?t1 k" using a by simp
  note ul = unlock_locked[OF lf b0]
  have int: "upsert_replace_internal cfg ?t1 k v (hash_key t k) ?b0 =
         (case claimed_slot cfg (metadata t ! selected_bucket cfg t k) of
            Some i \<Rightarrow> Some (True, (write_slot t (selected_bucket cfg t k) i (get_tag cfg k) (k, v))
                                   \<lparr>locks := ?L\<rparr>)
          | None \<Rightarrow> Some (False, ?t1))"
    using upsert_replace_internal_absent[OF wf sh1 a1, of v]
    by (cases "claimed_slot cfg (metadata t ! selected_bucket cfg t k)") simp_all
  show ?thesis
    unfolding up int
    by (simp add: ul relock_write_slot split: option.splits)
qed

section \<open>The example tables\<close>

text \<open>The example tables are what the operations make of freshly generated tables.\<close>

lemma wf_example_config: "wf_config example_config"
  by code_simp

lemma one_table_upsert:
  "upsert_replace example_config (generate_on_device example_config 8 0) 1 10
   = Some (True, one_table)"
  by code_simp

lemma one_table_reachable: "reachable example_config one_table"
  using reachable.generated one_table_upsert by (rule reachable.upserted)

lemma full_table_run:
  "run example_config (generate_on_device example_config 8 0)
     [Upsert 1 10, Upsert 2 20, Upsert 3 30, Upsert 4 40,
      Upsert 5 50, Upsert 6 60, Upsert 7 70, Upsert 8 80] = Some full_table"
  by code_simp

lemma full_table_reachable: "reachable example_config full_table"
  using reachable.generated full_table_run by (rule run_reachable)

lemma tombstoned_table_run:
  "run example_config (generate_on_device example_config 16 0)
     [Upsert 1 10, Upsert 2 20, Upsert 3 30, Upsert 4 40, Upsert 5 50, Upsert 6 60, Remove 2]
   = Some tombstoned_table"
  by code_simp

lemma tombstoned_table_reachable: "reachable example_config tombstoned_table"
  using reachable.generated tombstoned_table_run by (rule run_reachable)

lemma five_table_run:
  "run example_config (generate_on_device example_config 16 0)
     [Upsert 2 20, Upsert 3 30, Upsert 5 50, Upsert 9 90, Upsert 14 140] = Some five_table"
  by code_simp

lemma five_table_reachable: "reachable example_config five_table"
  using reachable.generated five_table_run by (rule run_reachable)

lemma full_table_rejects_9:
  "upsert_replace example_config full_table 9 90 = Some (False, full_table)"
  by code_simp

lemma full_table_misses_9:
  "find_with_reference example_config full_table 9 = (None, full_table)"
  by code_simp

lemma live_key_9: "live_key example_config 9"
  by code_simp

section \<open>Upsert and query\<close>

text \<open>
  C1. On a table reached from a generated one, an \<^verbatim>\<open>upsert(k, v)\<close> that returns true is
  followed by a query of \<open>k\<close> that returns \<open>v\<close> and hands the table back unchanged.
\<close>

theorem C1_upsert_then_query:
  assumes "wf_config cfg" and "reachable cfg t"
    and "upsert_replace cfg t k v = Some (True, t')"
  shows "find_with_reference cfg t' k = (Some v, t')"
  using assms(1) reachable_table_inv[OF assms(1,2)] assms(3) by (rule find_after_upsert)

text \<open>On the one-bucket table, after \<^verbatim>\<open>upsert(1, 10)\<close> has returned true.\<close>

theorem C1_upsert_then_query_witness:
  "wf_config example_config
   \<and> reachable example_config (generate_on_device example_config 8 0)
   \<and> upsert_replace example_config (generate_on_device example_config 8 0) 1 10
       = Some (True, one_table)
   \<and> find_with_reference example_config one_table 1 = (Some 10, one_table)"
  using C1_upsert_then_query[OF wf_example_config reachable.generated one_table_upsert]
    wf_example_config reachable.generated[of example_config 8 0] one_table_upsert
  by (intro conjI)

text \<open>
  An upsert may return false: on the table whose bucket is full the upsert of the live
  key 9, which the table does not hold, returns false, and the query of 9 that follows
  finds nothing.
\<close>

theorem C1_full_table_counterexample:
  "reachable example_config full_table \<and> live_key example_config 9
   \<and> upsert_replace example_config full_table 9 90 = Some (False, full_table)
   \<and> find_with_reference example_config full_table 9 = (None, full_table)"
  using full_table_reachable live_key_9 full_table_rejects_9 full_table_misses_9
  by (intro conjI)

text \<open>
  C5. On a table reached from a generated one, when \<^verbatim>\<open>upsert(k, v1)\<close> and then
  \<^verbatim>\<open>upsert(k, v2)\<close> both return true, the query of \<open>k\<close> returns \<open>v2\<close>, and the second
  upsert has written the slot that held \<open>(k, v1)\<close> and no other.
\<close>

theorem C5_second_upsert_in_place:
  assumes wf: "wf_config cfg" and r: "reachable cfg t"
    and u1: "upsert_replace cfg t k v1 = Some (True, t1)"
    and u2: "upsert_replace cfg t1 k v2 = Some (True, t2)"
  shows "find_with_reference cfg t2 k = (Some v2, t2)
         \<and> (\<exists>b i. (b = first_bucket t k \<or> b = second_bucket t k) \<and> i < bucket_size cfg
                \<and> holds cfg t1 b i k \<and> buckets t1 ! b ! i = (k, v1)
                \<and> t2 = write_slot t1 b i (get_tag cfg k) (k, v2))"
proof
  note inv = reachable_table_inv[OF wf r]
  note inv1 = table_inv_upsert_replace[OF wf inv u1]
  note sh = table_inv_D(1)[OF inv]
  show "find_with_reference cfg t2 k = (Some v2, t2)"
    using wf inv1 u2 by (rule find_after_upsert)
  from upsert_replace_written[OF wf inv u1]
  obtain b i where b: "b = first_bucket t k \<or> b = second_bucket t k" and i: "i < bucket_size cfg"
    and t1: "t1 = write_slot t b i (get_tag cfg k) (k, v1)" by blast
  have bl: "b < unat (n_buckets t)"
    using b first_bucket_less[OF sh, of k] second_bucket_less[OF sh, of k] by auto
  have h1: "holds cfg t1 b i k" unfolding t1 by (simp add: holds_write_slot[OF sh bl i])
  have p1: "buckets t1 ! b ! i = (k, v1)" unfolding t1 pair_write_slot[OF sh bl i] by simp
  have b1: "b = first_bucket t1 k \<or> b = second_bucket t1 k" using b by (simp add: t1)
  from upsert_replace_written[OF wf inv1 u2]
  obtain c j where c: "c = first_bucket t1 k \<or> c = second_bucket t1 k"
    and j: "j < bucket_size cfg"
    and t2: "t2 = write_slot t1 c j (get_tag cfg k) (k, v2)"
    and w: "holds cfg t1 c j k \<or> (absent cfg t1 k \<and> \<not> live_tag cfg (metadata t1 ! c ! j))"
    by blast
  have "\<not> absent cfg t1 k" using b1 i h1 by (auto simp: absent_iff)
  with w have "holds cfg t1 c j k" by blast
  from table_inv_D(3)[OF inv1 c b1 j i this h1] have "c = b" "j = i" by simp_all
  with t2 b i h1 p1
  show "\<exists>b i. (b = first_bucket t k \<or> b = second_bucket t k) \<and> i < bucket_size cfg
                \<and> holds cfg t1 b i k \<and> buckets t1 ! b ! i = (k, v1)
                \<and> t2 = write_slot t1 b i (get_tag cfg k) (k, v2)" by blast
qed

text \<open>On the one-bucket table: \<^verbatim>\<open>upsert(1, 10)\<close>, then \<^verbatim>\<open>upsert(1, 11)\<close>.\<close>

theorem C5_second_upsert_in_place_witness:
  "wf_config example_config
   \<and> reachable example_config (generate_on_device example_config 8 0)
   \<and> upsert_replace example_config (generate_on_device example_config 8 0) 1 10
       = Some (True, one_table)
   \<and> upsert_replace example_config one_table 1 11
       = Some (True, write_slot one_table 0 0 1 (1, 11))
   \<and> find_with_reference example_config (write_slot one_table 0 0 1 (1, 11)) 1
       = (Some 11, write_slot one_table 0 0 1 (1, 11))"
proof -
  have u2: "upsert_replace example_config one_table 1 11
            = Some (True, write_slot one_table 0 0 1 (1, 11))" by code_simp
  from C5_second_upsert_in_place[OF wf_example_config reachable.generated one_table_upsert u2]
  have "find_with_reference example_config (write_slot one_table 0 0 1 (1, 11)) 1
       = (Some 11, write_slot one_table 0 0 1 (1, 11))" by (rule conjunct1)
  with wf_example_config reachable.generated[of example_config 8 0] one_table_upsert u2
  show ?thesis by (intro conjI)
qed

text \<open>
  On the table whose bucket is full both upserts of the absent key 9 return false, and
  the query does not return the second value.
\<close>

theorem C5_full_table_counterexample:
  "reachable example_config full_table \<and> live_key example_config 9
   \<and> upsert_replace example_config full_table 9 90 = Some (False, full_table)
   \<and> upsert_replace example_config full_table 9 91 = Some (False, full_table)
   \<and> find_with_reference example_config full_table 9 = (None, full_table)"
proof -
  have "upsert_replace example_config full_table 9 91 = Some (False, full_table)"
    by code_simp
  with full_table_reachable live_key_9 full_table_rejects_9 full_table_misses_9
  show ?thesis by (intro conjI)
qed

text \<open>
  C4. On the table whose bucket holds the keys 1 to 8, slot 7 holds key 8 and the query
  finds it with the value 80; yet \<^verbatim>\<open>upsert(8, 81)\<close> returns false and changes nothing.
  Both candidate buckets being full, the loop over the two buckets, which is where a
  matching slot would be updated, is not entered.
\<close>

theorem C4_full_buckets_skip_the_match:
  "holds example_config full_table (first_bucket full_table 8) 7 8
   \<and> find_with_reference example_config full_table 8 = (Some 80, full_table)
   \<and> upsert_replace example_config full_table 8 81 = Some (False, full_table)"
proof -
  have "holds example_config full_table (first_bucket full_table 8) 7 8" by code_simp
  moreover have "find_with_reference example_config full_table 8 = (Some 80, full_table)"
    by code_simp
  moreover have "upsert_replace example_config full_table 8 81 = Some (False, full_table)"
    by code_simp
  ultimately show ?thesis by (intro conjI)
qed

section \<open>Uniqueness\<close>

text \<open>
  C2. On every table reached from a generated one by upserts and removes (a query changes
  nothing), at most one slot of the two candidate buckets of a key holds that key as a
  live key, that is as a key other than the empty, the tombstone and the holding key.
\<close>

theorem C2_one_live_slot_per_key:
  assumes "wf_config cfg" and "reachable cfg t"
  shows "length (live_slots_holding cfg t k) \<le> 1"
  using assms(1) reachable_table_inv[OF assms] by (rule live_slots_holding_unique)

text \<open>On the one-bucket table that holds key 1.\<close>

theorem C2_one_live_slot_per_key_witness:
  "wf_config example_config \<and> reachable example_config one_table
   \<and> length (live_slots_holding example_config one_table 1) \<le> 1"
  using C2_one_live_slot_per_key[OF wf_example_config one_table_reachable, of 1]
    wf_example_config one_table_reachable
  by (intro conjI)

section \<open>The shortcut\<close>

text \<open>
  C3. \<^verbatim>\<open>upsert_replace_internal\<close> runs its shortcut phase, on \<^verbatim>\<open>bucket_0\<close> alone, exactly
  when the number of tags of \<^verbatim>\<open>bucket_0\<close> that are not empty, the tombstoned slots
  counted as filled, is below 75% of \<^verbatim>\<open>bucket_size\<close>; the phase then returns true in its
  first pass. Otherwise the operation goes on to the loop over both buckets. (The count of
  the tags that are not empty never falls, which is what keeps a key that was placed in
  its secondary bucket from being placed once more in the primary one.)
\<close>

theorem C3_shortcut_gate_counts_tombstones:
  assumes "wf_config cfg" and "shape cfg t" and "bucket_0 < unat (n_buckets t)"
  shows "upsert_replace_internal cfg t k v key_hash bucket_0 =
     (if 4 * occupied_tags cfg (metadata t ! bucket_0) < 3 * bucket_size cfg
      then Some (True, snd (shortcut_attempt cfg t bucket_0 k v
                              (load_fill_ballots_huge cfg (metadata t ! bucket_0) k)))
      else alternate_loop cfg bucket_0 (get_second_bucket t key_hash) k v
             (t, load_fill_ballots_huge cfg (metadata t ! bucket_0) k,
                 load_fill_ballots_huge cfg (metadata t ! get_second_bucket t key_hash) k))"
  using assms by (rule upsert_replace_internal_gate)

text \<open>On the one-bucket table, whose bucket has one tag that is not empty.\<close>

theorem C3_shortcut_gate_counts_tombstones_witness:
  "wf_config example_config \<and> shape example_config one_table
   \<and> 0 < unat (n_buckets one_table)
   \<and> 4 * occupied_tags example_config (metadata one_table ! 0) < 3 * bucket_size example_config
   \<and> upsert_replace_internal example_config one_table 2 20 (hash_key one_table 2) 0
       = Some (True, snd (shortcut_attempt example_config one_table 0 2 20
                            (load_fill_ballots_huge example_config (metadata one_table ! 0) 2)))"
proof -
  have sh: "shape example_config one_table" by code_simp
  have b: "0 < unat (n_buckets one_table)" by code_simp
  have g: "4 * occupied_tags example_config (metadata one_table ! 0)
           < 3 * bucket_size example_config" by code_simp
  from C3_shortcut_gate_counts_tombstones[OF wf_example_config sh b,
      of 2 20 "hash_key one_table 2"] g
  have "upsert_replace_internal example_config one_table 2 20 (hash_key one_table 2) 0
       = Some (True, snd (shortcut_attempt example_config one_table 0 2 20
                            (load_fill_ballots_huge example_config (metadata one_table ! 0) 2)))"
    by (simp only: if_True)
  with wf_example_config sh b g show ?thesis by (intro conjI)
qed

text \<open>
  In the two-bucket table bucket 0, the primary bucket of key 13, has five slots whose tag
  is neither empty nor tombstone, fewer than 75% of 8; the tombstone of key 2 makes six
  tags that are not empty, and the upsert of key 13 goes to the loop over both buckets
  and puts the key in bucket 1.
\<close>

theorem C3_tombstoned_bucket_counterexample:
  "reachable example_config tombstoned_table
   \<and> first_bucket tombstoned_table 13 = 0 \<and> second_bucket tombstoned_table 13 = 1
   \<and> live_tags example_config (metadata tombstoned_table ! 0) = 5
   \<and> bucket_size example_config = 8
   \<and> upsert_replace example_config tombstoned_table 13 130
       = Some (True, write_slot tombstoned_table 1 0 (get_tag example_config 13) (13, 130))"
proof -
  have "first_bucket tombstoned_table 13 = 0" by code_simp
  moreover have "second_bucket tombstoned_table 13 = 1" by code_simp
  moreover have "live_tags example_config (metadata tombstoned_table ! 0) = 5" by code_simp
  moreover have "bucket_size example_config = 8" by code_simp
  moreover have "upsert_replace example_config tombstoned_table 13 130
       = Some (True, write_slot tombstoned_table 1 0 (get_tag example_config 13) (13, 130))"
    by code_simp
  ultimately show ?thesis using tombstoned_table_reachable by (intro conjI)
qed

section \<open>Remove\<close>

text \<open>
  C6. On a table reached from a generated one: after \<^verbatim>\<open>remove(k)\<close> has returned true, the
  query of \<open>k\<close> finds nothing, the \<^verbatim>\<open>upsert(k, v2)\<close> that follows returns true, and the
  query of \<open>k\<close> then returns \<open>v2\<close>.
\<close>

theorem C6_remove_then_query_then_upsert:
  assumes wf: "wf_config cfg" and r: "reachable cfg t"
    and rm: "remove_key cfg t k = Some (True, t1)"
  shows "find_with_reference cfg t1 k = (None, t1)
         \<and> (\<exists>t2. upsert_replace cfg t1 k v2 = Some (True, t2)
                 \<and> find_with_reference cfg t2 k = (Some v2, t2))"
proof
  note inv = reachable_table_inv[OF wf r]
  note inv1 = table_inv_remove_key[OF wf inv rm]
  from remove_key_erased[OF wf inv rm]
  obtain b i where b: "b = first_bucket t k \<or> b = second_bucket t k" and i: "i < bucket_size cfg"
    and t1: "t1 = write_slot t b i (get_tombstone_tag cfg)
                    (tombstoneKey cfg, snd (buckets t ! b ! i))"
    and a: "absent cfg t1 k" and tomb: "metadata t1 ! b ! i = get_tombstone_tag cfg"
    by blast
  from find_of_absent[OF wf a] find_with_reference_snd[of cfg t1 k]
  show "find_with_reference cfg t1 k = (None, t1)"
    by (cases "find_with_reference cfg t1 k") simp
  have b1: "b = first_bucket t1 k \<or> b = second_bucket t1 k" using b by (simp add: t1)
  have "\<not> live_tag cfg (metadata t1 ! b ! i)" using tomb by (simp add: live_tag_def)
  from upsert_replace_succeeds[OF wf inv1 b1 i this, of v2]
  obtain t2 where u: "upsert_replace cfg t1 k v2 = Some (True, t2)" by blast
  with find_after_upsert[OF wf inv1 u]
  show "\<exists>t2. upsert_replace cfg t1 k v2 = Some (True, t2)
                 \<and> find_with_reference cfg t2 k = (Some v2, t2)" by blast
qed

text \<open>On the one-bucket table that holds key 1.\<close>

theorem C6_remove_then_query_then_upsert_witness:
  "wf_config example_config \<and> reachable example_config one_table
   \<and> remove_key example_config one_table 1
       = Some (True, write_slot one_table 0 0 (get_tombstone_tag example_config)
                       (tombstoneKey example_config, 10))
   \<and> find_with_reference example_config
         (write_slot one_table 0 0 (get_tombstone_tag example_config)
            (tombstoneKey example_config, 10)) 1
       = (None, write_slot one_table 0 0 (get_tombstone_tag example_config)
                  (tombstoneKey example_config, 10))
   \<and> (\<exists>t2. upsert_replace example_config
               (write_slot one_table 0 0 (get_tombstone_tag example_config)
                  (tombstoneKey example_config, 10)) 1 12 = Some (True, t2)
            \<and> find_with_reference example_config t2 1 = (Some 12, t2))"
proof -
  have rm: "remove_key example_config one_table 1
       = Some (True, write_slot one_table 0 0 (get_tombstone_tag example_config)
                       (tombstoneKey example_config, 10))" by code_simp
  from C6_remove_then_query_then_upsert[OF wf_example_config one_table_reachable rm, of 12]
    wf_example_config one_table_reachable rm
  show ?thesis by (intro conjI) simp_all
qed

text \<open>
  C7. On a table reached from a generated one, when \<^verbatim>\<open>upsert(k1, v)\<close> returns true and
  \<open>k2\<close> has the candidate buckets of \<open>k1\<close>: \<^verbatim>\<open>remove(k1)\<close> returns true and leaves a
  tombstone in the slot of \<open>k1\<close>; the \<^verbatim>\<open>upsert(k2, v2)\<close> that follows returns true,
  whether the candidate buckets have empty slots or not, and \<open>k2\<close> is then found with
  \<open>v2\<close>. That upsert writes \<open>(k2, v2)\<close> into the slot of the tombstone exactly when \<open>k2\<close>
  was not in the table, the bucket of the slot is the bucket the upsert selects
  (\<^verbatim>\<open>bucket_0\<close> while fewer than 75% of its tags are not empty, else the candidate bucket
  with fewer live tags, \<^verbatim>\<open>bucket_0\<close> on a tie) and no tombstone comes before it in that
  bucket: the first tombstone of the bucket is claimed, before any empty slot.
\<close>

theorem C7_tombstone_reuse:
  assumes wf: "wf_config cfg" and r: "reachable cfg t"
    and u1: "upsert_replace cfg t k1 v = Some (True, t1)"
    and same: "first_bucket t k2 = first_bucket t k1" "second_bucket t k2 = second_bucket t k1"
  shows "\<exists>b i t2 t3.
           (b = first_bucket t k1 \<or> b = second_bucket t k1) \<and> i < bucket_size cfg
           \<and> buckets t1 ! b ! i = (k1, v)
           \<and> remove_key cfg t1 k1 = Some (True, t2)
           \<and> t2 = write_slot t1 b i (get_tombstone_tag cfg) (tombstoneKey cfg, v)
           \<and> upsert_replace cfg t2 k2 v2 = Some (True, t3)
           \<and> find_with_reference cfg t3 k2 = (Some v2, t3)
           \<and> (t3 = write_slot t2 b i (get_tag cfg k2) (k2, v2)
                \<longleftrightarrow> absent cfg t2 k2 \<and> selected_bucket cfg t2 k2 = b
                    \<and> claimed_slot cfg (metadata t2 ! b) = Some i)"
proof -
  note inv = reachable_table_inv[OF wf r]
  note inv1 = table_inv_upsert_replace[OF wf inv u1]
  note sh = table_inv_D(1)[OF inv]
  from upsert_replace_written[OF wf inv u1]
  obtain b0 i0 where b0: "b0 = first_bucket t k1 \<or> b0 = second_bucket t k1"
    and i0: "i0 < bucket_size cfg"
    and t1: "t1 = write_slot t b0 i0 (get_tag cfg k1) (k1, v)" by blast
  have bl: "b0 < unat (n_buckets t)"
    using b0 first_bucket_less[OF sh, of k1] second_bucket_less[OF sh, of k1] by auto
  have h1: "holds cfg t1 b0 i0 k1" unfolding t1 by (simp add: holds_write_slot[OF sh bl i0])
  have p1: "buckets t1 ! b0 ! i0 = (k1, v)" unfolding t1 pair_write_slot[OF sh bl i0] by simp
  have c1: "first_bucket t1 k = first_bucket t k" "second_bucket t1 k = second_bucket t k" for k
    by (simp_all add: t1)
  have b01: "b0 = first_bucket t1 k1 \<or> b0 = second_bucket t1 k1" using b0 by (simp add: c1)
  from remove_key_present[OF wf inv1 b01 i0 h1]
  obtain t2 where rm: "remove_key cfg t1 k1 = Some (True, t2)" by blast
  note inv2 = table_inv_remove_key[OF wf inv1 rm]
  note sh2 = table_inv_D(1)[OF inv2]
  from remove_key_erased[OF wf inv1 rm]
  obtain b i where b: "b = first_bucket t1 k1 \<or> b = second_bucket t1 k1"
    and i: "i < bucket_size cfg" and h: "holds cfg t1 b i k1"
    and t2: "t2 = write_slot t1 b i (get_tombstone_tag cfg)
                    (tombstoneKey cfg, snd (buckets t1 ! b ! i))"
    and tomb: "metadata t2 ! b ! i = get_tombstone_tag cfg"
    by blast
  from table_inv_D(3)[OF inv1 b b01 i i0 h h1] have be: "b = b0" "i = i0" by simp_all
  have c2: "first_bucket t2 k = first_bucket t k" "second_bucket t2 k = second_bucket t k" for k
    by (simp_all add: t2 c1)
  have t2': "t2 = write_slot t1 b i (get_tombstone_tag cfg) (tombstoneKey cfg, v)"
    using t2 p1 be by simp
  have b2: "b = first_bucket t2 k2 \<or> b = second_bucket t2 k2"
    using b by (simp add: c1 c2 same)
  have bl2: "b < unat (n_buckets t2)"
    using b2 first_bucket_less[OF sh2, of k2] second_bucket_less[OF sh2, of k2] by auto
  have free: "\<not> live_tag cfg (metadata t2 ! b ! i)" using tomb by (simp add: live_tag_def)
  from upsert_replace_succeeds[OF wf inv2 b2 i free, of v2]
  obtain t3 where u3: "upsert_replace cfg t2 k2 v2 = Some (True, t3)" by blast
  note f3 = find_after_upsert[OF wf inv2 u3]
  note nr = get_tag_not_reserved[of cfg k2]
  let ?ws = "write_slot t2 b i (get_tag cfg k2) (k2, v2)"
  have ws: "metadata ?ws ! b ! i = get_tag cfg k2"
    unfolding tag_write_slot[OF sh2 bl2 i] by simp
  have other: "metadata (write_slot t2 c j (get_tag cfg k2) (k2, v2)) ! b ! i
               = get_tombstone_tag cfg"
    if "c < unat (n_buckets t2)" "j < bucket_size cfg" "\<not> (c = b \<and> j = i)" for c j
    unfolding tag_write_slot[OF sh2 that(1,2)] using that(3) tomb by auto
  have reuse: "t3 = ?ws \<longleftrightarrow> absent cfg t2 k2 \<and> selected_bucket cfg t2 k2 = b
                    \<and> claimed_slot cfg (metadata t2 ! b) = Some i"
  proof (cases "absent cfg t2 k2")
    case True
    note ab = upsert_replace_absent[OF wf sh2 table_inv_D(2)[OF inv2] True, of v2]
    let ?sel = "selected_bucket cfg t2 k2"
    from ab u3 obtain j where j: "claimed_slot cfg (metadata t2 ! ?sel) = Some j"
      and t3: "t3 = write_slot t2 ?sel j (get_tag cfg k2) (k2, v2)"
      by (cases "claimed_slot cfg (metadata t2 ! ?sel)") simp_all
    note jl = claimed_slot_Some(1)[OF j] and sl = selected_bucket_less[OF sh2, of k2]
    show ?thesis
    proof
      assume eq: "t3 = ?ws"
      have "?sel = b \<and> j = i"
      proof (rule ccontr)
        assume neg: "\<not> (?sel = b \<and> j = i)"
        have "metadata (write_slot t2 ?sel j (get_tag cfg k2) (k2, v2)) ! b ! i
              = metadata ?ws ! b ! i"
          unfolding t3[symmetric] eq[symmetric] ..
        then have "get_tombstone_tag cfg = get_tag cfg k2"
          unfolding other[OF sl jl neg] ws .
        with nr show False by simp
      qed
      with True j show "absent cfg t2 k2 \<and> ?sel = b \<and> claimed_slot cfg (metadata t2 ! b) = Some i"
        by simp
    next
      assume "absent cfg t2 k2 \<and> ?sel = b \<and> claimed_slot cfg (metadata t2 ! b) = Some i"
      with j t3 show "t3 = ?ws" by simp
    qed
  next
    case False
    from upsert_replace_written[OF wf inv2 u3]
    obtain c j where c: "c = first_bucket t2 k2 \<or> c = second_bucket t2 k2"
      and j: "j < bucket_size cfg"
      and t3: "t3 = write_slot t2 c j (get_tag cfg k2) (k2, v2)"
      and w: "holds cfg t2 c j k2 \<or> (absent cfg t2 k2 \<and> \<not> live_tag cfg (metadata t2 ! c ! j))"
      by blast
    from w False have hc: "holds cfg t2 c j k2" by blast
    have cl: "c < unat (n_buckets t2)"
      using c first_bucket_less[OF sh2, of k2] second_bucket_less[OF sh2, of k2] by auto
    have neg: "\<not> (c = b \<and> j = i)" using hc tomb nr by (auto simp: holds_def)
    have "t3 \<noteq> ?ws"
    proof
      assume eq: "t3 = ?ws"
      have "metadata (write_slot t2 c j (get_tag cfg k2) (k2, v2)) ! b ! i
            = metadata ?ws ! b ! i"
        unfolding t3[symmetric] eq[symmetric] ..
      then have "get_tombstone_tag cfg = get_tag cfg k2"
        unfolding other[OF cl j neg] ws .
      with nr show False by simp
    qed
    with False show ?thesis by simp
  qed
  have bt: "b = first_bucket t k1 \<or> b = second_bucket t k1" using b by (simp add: c1)
  have pb: "buckets t1 ! b ! i = (k1, v)" using p1 be by simp
  from bt i pb rm t2' u3 f3 reuse show ?thesis by blast
qed

text \<open>
  On the generated one-bucket table, with the keys 1 and 2: after \<^verbatim>\<open>upsert(1, 10)\<close> and
  \<^verbatim>\<open>remove(1)\<close> slot 0 is a tombstone and the slots 1 to 7 are empty; key 2 is absent,
  bucket 0 is selected and slot 0 is its first tombstone, and \<^verbatim>\<open>upsert(2, 20)\<close> writes
  slot 0.
\<close>

theorem C7_tombstone_reuse_witness:
  "wf_config example_config
   \<and> reachable example_config (generate_on_device example_config 8 0)
   \<and> upsert_replace example_config (generate_on_device example_config 8 0) 1 10
       = Some (True, one_table)
   \<and> first_bucket (generate_on_device example_config 8 0) 2
       = first_bucket (generate_on_device example_config 8 0) 1
   \<and> second_bucket (generate_on_device example_config 8 0) 2
       = second_bucket (generate_on_device example_config 8 0) 1
   \<and> remove_key example_config one_table 1 = Some (True, removed_table)
   \<and> metadata removed_table ! 0 ! 0 = get_tombstone_tag example_config
   \<and> metadata removed_table ! 0 ! 1 = get_empty_tag example_config
   \<and> absent example_config removed_table 2
   \<and> selected_bucket example_config removed_table 2 = 0
   \<and> claimed_slot example_config (metadata removed_table ! 0) = Some 0
   \<and> upsert_replace example_config removed_table 2 20
       = Some (True, write_slot removed_table 0 0 (get_tag example_config 2) (2, 20))
   \<and> find_with_reference example_config
         (write_slot removed_table 0 0 (get_tag example_config 2) (2, 20)) 2
       = (Some 20, write_slot removed_table 0 0 (get_tag example_config 2) (2, 20))"
proof -
  let ?gen = "generate_on_device example_config 8 0"
  have f: "first_bucket ?gen 2 = first_bucket ?gen 1" by code_simp
  have s: "second_bucket ?gen 2 = second_bucket ?gen 1" by code_simp
  have fb: "first_bucket ?gen 1 = 0" "second_bucket ?gen 1 = 0" by code_simp+
  have bs: "bucket_size example_config = 8" by code_simp
  have only: "\<forall>j<8. buckets one_table ! 0 ! j = (1, 10) \<longrightarrow> j = 0" by code_simp
  have rm: "remove_key example_config one_table 1 = Some (True, removed_table)" by code_simp
  have tomb: "metadata removed_table ! 0 ! 0 = get_tombstone_tag example_config" by code_simp
  have empty: "metadata removed_table ! 0 ! 1 = get_empty_tag example_config" by code_simp
  have ab: "absent example_config removed_table 2" by code_simp
  have sel: "selected_bucket example_config removed_table 2 = 0" by code_simp
  have cl: "claimed_slot example_config (metadata removed_table ! 0) = Some 0" by code_simp
  from C7_tombstone_reuse[OF wf_example_config reachable.generated one_table_upsert f s, of 20]
  obtain b i t2 t3 where b: "b = first_bucket ?gen 1 \<or> b = second_bucket ?gen 1"
    and i: "i < bucket_size example_config"
    and p: "buckets one_table ! b ! i = (1, 10)"
    and rm': "remove_key example_config one_table 1 = Some (True, t2)"
    and u3: "upsert_replace example_config t2 2 20 = Some (True, t3)"
    and f3: "find_with_reference example_config t3 2 = (Some 20, t3)"
    and reuse: "t3 = write_slot t2 b i (get_tag example_config 2) (2, 20)
                \<longleftrightarrow> absent example_config t2 2 \<and> selected_bucket example_config t2 2 = b
                    \<and> claimed_slot example_config (metadata t2 ! b) = Some i"
    by blast
  have b0: "b = 0" using b fb by simp
  have i0: "i = 0" using i p only unfolding b0 bs by blast
  have t2: "t2 = removed_table" using rm rm' by simp
  have t3: "t3 = write_slot removed_table 0 0 (get_tag example_config 2) (2, 20)"
    using reuse ab sel cl unfolding b0 i0 t2 by blast
  from u3 f3 have "upsert_replace example_config removed_table 2 20
       = Some (True, write_slot removed_table 0 0 (get_tag example_config 2) (2, 20))"
    "find_with_reference example_config
         (write_slot removed_table 0 0 (get_tag example_config 2) (2, 20)) 2
       = (Some 20, write_slot removed_table 0 0 (get_tag example_config 2) (2, 20))"
    unfolding t2 t3 by simp_all
  with wf_example_config reachable.generated[of example_config 8 0] one_table_upsert f s
    rm tomb empty ab sel cl
  show ?thesis by (intro conjI)
qed

text \<open>
  The upsert need not take the slot that the remove left. In the two-bucket table that
  holds the keys 2, 3, 5, 9 and 14 in bucket 0, the keys 1 and 4 have the candidate
  buckets 0 and 1. \<^verbatim>\<open>upsert(1, 10)\<close> returns true and takes slot 5 of bucket 0,
  \<^verbatim>\<open>remove(1)\<close> returns true and leaves the tombstone there; \<^verbatim>\<open>upsert(4, 40)\<close> returns
  true, but bucket 0 has six tags that are not empty and five live ones, bucket 1 has
  none, and the pair goes to slot 0 of bucket 1: the tombstone stays.
\<close>

theorem C7_other_bucket_counterexample:
  "reachable example_config five_table
   \<and> live_key example_config 1 \<and> live_key example_config 4
   \<and> first_bucket five_table 4 = first_bucket five_table 1
   \<and> second_bucket five_table 4 = second_bucket five_table 1
   \<and> upsert_replace example_config five_table 1 10
       = Some (True, write_slot five_table 0 5 (get_tag example_config 1) (1, 10))
   \<and> remove_key example_config
         (write_slot five_table 0 5 (get_tag example_config 1) (1, 10)) 1
       = Some (True, five_removed_table)
   \<and> metadata five_removed_table ! 0 ! 5 = get_tombstone_tag example_config
   \<and> upsert_replace example_config five_removed_table 4 40
       = Some (True, write_slot five_removed_table 1 0 (get_tag example_config 4) (4, 40))
   \<and> metadata (write_slot five_removed_table 1 0 (get_tag example_config 4) (4, 40)) ! 0 ! 5
       = get_tombstone_tag example_config"
proof -
  have "live_key example_config 1" by code_simp
  moreover have "live_key example_config 4" by code_simp
  moreover have "first_bucket five_table 4 = first_bucket five_table 1" by code_simp
  moreover have "second_bucket five_table 4 = second_bucket five_table 1" by code_simp
  moreover have "upsert_replace example_config five_table 1 10
       = Some (True, write_slot five_table 0 5 (get_tag example_config 1) (1, 10))"
    by code_simp
  moreover have "remove_key example_config
         (write_slot five_table 0 5 (get_tag example_config 1) (1, 10)) 1
       = Some (True, five_removed_table)" by code_simp
  moreover have "metadata five_removed_table ! 0 ! 5 = get_tombstone_tag example_config"
    by code_simp
  moreover have "upsert_replace example_config five_removed_table 4 40
       = Some (True, write_slot five_removed_table 1 0 (get_tag example_config 4) (4, 40))"
    by code_simp
  moreover have "metadata (write_slot five_removed_table 1 0 (get_tag example_config 4) (4, 40))
                   ! 0 ! 5 = get_tombstone_tag example_config" by code_simp
  ultimately show ?thesis using five_table_reachable by (intro conjI)
qed

section \<open>Construction\<close>

text \<open>
  C9. Generated with capacity 0 and \<^verbatim>\<open>bucket_size\<close> 8, the table has
  2305843009213693952 buckets, not none: \<^verbatim>\<open>cache_capacity-1\<close> wraps around to the
  largest 64-bit number.
\<close>

theorem C9_zero_capacity_wraps:
  "n_buckets (generate_on_device example_config 0 ext_seed) = 2305843009213693952"
proof -
  have "ext_n_buckets example_config 0 = 2305843009213693952" by code_simp
  then show ?thesis by (simp add: generate_on_device_def Let_def)
qed

section \<open>Query\<close>

text \<open>
  C10. \<^verbatim>\<open>find_with_reference\<close> and \<^verbatim>\<open>find_with_reference_no_lock\<close>, run with their loads
  and probe counts on the state of the device, leave the table as it was, buckets, tags
  and lock words, whatever the instrumentation does to its counter; they take no lock.
  With the instrumentation disabled the whole state is as it was, and the one effect is
  the result, which is the result of \<open>find_with_reference\<close> above. The result does not
  depend on the lock words.
\<close>

theorem C10_query_writes_nothing:
  "fst (snd (find_with_reference_dev ins cfg (t, c) k)) = t
   \<and> fst (snd (find_with_reference_no_lock_dev ins cfg (t, c) k)) = t
   \<and> find_with_reference_dev no_instrumentation cfg (t, c) k
       = (fst (find_with_reference cfg t k), (t, c))
   \<and> find_with_reference_no_lock_dev no_instrumentation cfg (t, c) k
       = (fst (find_with_reference_no_lock cfg t k), (t, c))
   \<and> fst (find_with_reference_dev ins cfg (t\<lparr>locks := l\<rparr>, c) k)
       = fst (find_with_reference_dev ins cfg (t, c) k)"
proof -
  from find_with_reference_dev_loads[of ins cfg t c k]
  obtain c' where a: "find_with_reference_dev ins cfg (t, c) k
                      = (fst (find_with_reference cfg t k), (t, c'))" by blast
  from find_with_reference_dev_loads[of no_instrumentation cfg t c k] silent_no_instrumentation
  have b: "find_with_reference_dev no_instrumentation cfg (t, c) k
           = (fst (find_with_reference cfg t k), (t, c))" by auto
  from find_with_reference_dev_loads[of ins cfg "t\<lparr>locks := l\<rparr>" c k]
  obtain c'' where d: "find_with_reference_dev ins cfg (t\<lparr>locks := l\<rparr>, c) k
                      = (fst (find_with_reference cfg (t\<lparr>locks := l\<rparr>) k), (t\<lparr>locks := l\<rparr>, c''))"
    by blast
  have e: "find_with_reference_no_lock cfg t k = find_with_reference cfg t k"
    by (simp add: find_with_reference_no_lock_def find_with_reference_def)
  from a b d e show ?thesis
    by (simp add: find_with_reference_no_lock_dev_eq find_with_reference_locks)
qed

text \<open>With an instrumentation that counts, a query of the full table leaves the table
  alone and reports two probes.\<close>

lemma query_counts_probes:
  "find_with_reference_dev \<lparr>ADD_PROBE_TILE = Suc, ADD_PROBE = Suc\<rparr> example_config
     (full_table, 0) 8 = (Some 80, (full_table, 2))"
  by code_simp

end
